theory Spec2Isabelle
  imports Main "HOL-Library.Word"
begin

unbundle bit_operations_syntax

section \<open>Machine types and the constants of the CMSIS driver interface\<close>

text \<open>
  The header is written for the 32-bit targets of CMSIS: \<open>std::size_t\<close> and
  \<open>uint32_t\<close> are 32-bit words, and the only arithmetic the header does on them, the
  subtraction \<open>tmpCount - rx_count_\<close>, wraps around. The byte counts that go into and come
  out of the ring buffer are natural numbers; a word is read with \<open>unat\<close> where it is
  handed over. A driver status (\<open>int32_t\<close>) is only ever compared with
  \<open>ARM_DRIVER_OK\<close>.
\<close>

type_synonym uint8_t = "8 word"
type_synonym uint32_t = "32 word"
type_synonym size_t = "32 word"
type_synonym int32_t = int
type_synonym ssize_t = int

text \<open>
  The conversion of a \<open>std::size_t\<close> to the \<open>ssize_t\<close> that \<open>do_write\<close> returns: the
  same 32 bits read as a signed number, so a count of \<open>2 ^ 31\<close> or more comes back
  negative.
\<close>

definition to_ssize_t :: "size_t \<Rightarrow> ssize_t" where
  "to_ssize_t c = sint c"

definition ARM_DRIVER_OK :: int32_t where
  "ARM_DRIVER_OK = 0"

definition ARM_DRIVER_ERROR :: int32_t where
  "ARM_DRIVER_ERROR = - 1"

datatype ARM_POWER_STATE = ARM_POWER_OFF | ARM_POWER_LOW | ARM_POWER_FULL

text \<open>
  The event bits and control codes of CMSIS \<open>Driver_USART.h\<close>: the events are
  \<open>1UL << 1\<close>, \<open>1UL << 3\<close>, \<open>1UL << 6\<close> and \<open>1UL << 8\<close>.
\<close>

definition ARM_USART_EVENT_RECEIVE_COMPLETE :: uint32_t where
  "ARM_USART_EVENT_RECEIVE_COMPLETE = 0x02"

definition ARM_USART_EVENT_TX_COMPLETE :: uint32_t where
  "ARM_USART_EVENT_TX_COMPLETE = 0x08"

definition ARM_USART_EVENT_RX_TIMEOUT :: uint32_t where
  "ARM_USART_EVENT_RX_TIMEOUT = 0x40"

definition ARM_USART_EVENT_RX_FRAMING_ERROR :: uint32_t where
  "ARM_USART_EVENT_RX_FRAMING_ERROR = 0x100"

definition ARM_USART_MODE_ASYNCHRONOUS :: uint32_t where
  "ARM_USART_MODE_ASYNCHRONOUS = 0x01"

definition ARM_USART_DATA_BITS_8 :: uint32_t where
  "ARM_USART_DATA_BITS_8 = 0"

definition ARM_USART_PARITY_NONE :: uint32_t where
  "ARM_USART_PARITY_NONE = 0"

definition ARM_USART_STOP_BITS_1 :: uint32_t where
  "ARM_USART_STOP_BITS_1 = 0"

definition ARM_USART_FLOW_CONTROL_NONE :: uint32_t where
  "ARM_USART_FLOW_CONTROL_NONE = 0"

definition ARM_USART_CONTROL_TX :: uint32_t where
  "ARM_USART_CONTROL_TX = 0x15"

definition ARM_USART_CONTROL_RX :: uint32_t where
  "ARM_USART_CONTROL_RX = 0x16"

datatype errno = EEXIST | ENOSR | EIO

section \<open>The circular byte buffer\<close>

text \<open>
  Modelled from the spec: \<open>posix-drivers/ByteCircularBuffer.h\<close> is included by the header
  but is not among the sources. The record follows the data model of the spec: a byte
  storage array of fixed capacity, a read cursor, a write cursor, the occupied-byte count
  and the two thresholds.
\<close>

record ByteCircularBuffer =
  storage :: "uint8_t list"
  read_cursor :: nat
  write_cursor :: nat
  occupied :: nat
  high_watermark :: nat
  low_watermark :: nat

text \<open>Modelled from the spec: the capacity C is the size of the storage array.\<close>

definition capacity :: "ByteCircularBuffer \<Rightarrow> nat" where
  "capacity b = length (storage b)"

text \<open>
  Modelled from the spec: the invariant of the data model, \<open>0 \<le> occupied \<le> C\<close>, the
  write cursor \<open>occupied\<close> places after the read cursor modulo C, both cursors indices of
  the storage, and \<open>0 < low < high \<le> C\<close>.
\<close>

definition invariant :: "ByteCircularBuffer \<Rightarrow> bool" where
  "invariant b \<longleftrightarrow>
     occupied b \<le> capacity b \<and>
     read_cursor b < capacity b \<and>
     write_cursor b < capacity b \<and>
     (read_cursor b + occupied b) mod capacity b = write_cursor b \<and>
     0 < low_watermark b \<and> low_watermark b < high_watermark b \<and>
     high_watermark b \<le> capacity b"

text \<open>
  Modelled from the spec: copying into and out of the storage, one byte after the other
  from a cursor, wrapping at the end of the array.
\<close>

fun store :: "uint8_t list \<Rightarrow> nat \<Rightarrow> uint8_t list \<Rightarrow> uint8_t list" where
  "store s i [] = s"
| "store s i (x # xs) = store (s[i := x]) (Suc i mod length s) xs"

fun load :: "uint8_t list \<Rightarrow> nat \<Rightarrow> nat \<Rightarrow> uint8_t list" where
  "load s i 0 = []"
| "load s i (Suc n) = s ! i # load s (Suc i mod length s) n"

text \<open>Modelled from the spec: \<open>clear()\<close> resets cursors and occupied count to empty.\<close>

definition clear :: "ByteCircularBuffer \<Rightarrow> ByteCircularBuffer" where
  "clear b = b\<lparr>read_cursor := 0, write_cursor := 0, occupied := 0\<rparr>"

text \<open>
  Modelled from the spec: \<open>pushBack(data, len)\<close> copies as many bytes as fit starting at
  the write cursor, advances it, increases occupied, and returns the bytes actually
  written (\<open>\<le> len\<close>, \<open>\<le>\<close> free space). The pair \<open>(data, len)\<close> of the C++ call is the
  list \<open>data\<close>.
\<close>

definition pushBack :: "uint8_t list \<Rightarrow> ByteCircularBuffer \<Rightarrow> nat \<times> ByteCircularBuffer" where
  "pushBack data b =
     (let n = min (length data) (capacity b - occupied b)
      in (n, b\<lparr>storage := store (storage b) (write_cursor b) (take n data),
                write_cursor := (write_cursor b + n) mod capacity b,
                occupied := occupied b + n\<rparr>))"

text \<open>
  Modelled from the spec: \<open>popFront(buf, len)\<close> copies from the read cursor, advances it,
  decreases occupied, and returns the bytes actually read (\<open>\<le> len\<close>, \<open>\<le>\<close> occupied). The
  result is the count, the bytes copied to \<open>buf\<close>, and the buffer.
\<close>

definition popFront :: "nat \<Rightarrow> ByteCircularBuffer \<Rightarrow> nat \<times> uint8_t list \<times> ByteCircularBuffer" where
  "popFront len b =
     (let n = min len (occupied b)
      in (n, load (storage b) (read_cursor b) n,
          b\<lparr>read_cursor := (read_cursor b + n) mod capacity b,
            occupied := occupied b - n\<rparr>))"

text \<open>
  Modelled from the spec: \<open>getFrontContiguousBuffer(&ptr)\<close> is the length of the longest run
  of occupied bytes starting at the read cursor without wrapping past the storage end,
  zero if empty, with a pointer into the storage; \<open>getBackContiguousBuffer(&ptr)\<close> is the
  length of the longest run of free bytes starting at the write cursor without wrapping,
  zero if full. A pointer into the storage is the index of the cell.
\<close>

definition getFrontContiguousBuffer :: "ByteCircularBuffer \<Rightarrow> nat \<times> nat" where
  "getFrontContiguousBuffer b =
     (min (occupied b) (capacity b - read_cursor b), read_cursor b)"

definition getBackContiguousBuffer :: "ByteCircularBuffer \<Rightarrow> nat \<times> nat" where
  "getBackContiguousBuffer b =
     (min (capacity b - occupied b) (capacity b - write_cursor b), write_cursor b)"

text \<open>
  Modelled from the spec: \<open>advanceFront(n)\<close> and \<open>advanceBack(n)\<close> commit n bytes already
  transferred out of or into a contiguous segment, and return the number actually
  committed, clamped to the occupied or free space.
\<close>

definition advanceFront :: "nat \<Rightarrow> ByteCircularBuffer \<Rightarrow> nat \<times> ByteCircularBuffer" where
  "advanceFront n b =
     (let k = min n (occupied b)
      in (k, b\<lparr>read_cursor := (read_cursor b + k) mod capacity b,
                occupied := occupied b - k\<rparr>))"

definition advanceBack :: "nat \<Rightarrow> ByteCircularBuffer \<Rightarrow> nat \<times> ByteCircularBuffer" where
  "advanceBack n b =
     (let k = min n (capacity b - occupied b)
      in (k, b\<lparr>write_cursor := (write_cursor b + k) mod capacity b,
                occupied := occupied b + k\<rparr>))"

text \<open>
  Modelled from the spec: \<open>retreatBack()\<close> un-commits exactly one byte of previously-written
  tail data, freeing one byte of space: the write cursor steps back by one cell (modulo
  C) and occupied drops by one. The spec describes it for a buffer that holds a byte;
  on an empty buffer the count stays 0 here.
\<close>

definition retreatBack :: "ByteCircularBuffer \<Rightarrow> ByteCircularBuffer" where
  "retreatBack b =
     b\<lparr>write_cursor := (write_cursor b + capacity b - 1) mod capacity b,
       occupied := occupied b - 1\<rparr>"

text \<open>
  Modelled from the spec: \<open>isBelowHighWaterMark()\<close> is true iff occupied \<open><\<close> high threshold,
  \<open>isBelowLowWaterMark()\<close> iff occupied \<open><\<close> low threshold.
\<close>

definition isBelowHighWaterMark :: "ByteCircularBuffer \<Rightarrow> bool" where
  "isBelowHighWaterMark b \<longleftrightarrow> occupied b < high_watermark b"

definition isBelowLowWaterMark :: "ByteCircularBuffer \<Rightarrow> bool" where
  "isBelowLowWaterMark b \<longleftrightarrow> occupied b < low_watermark b"

section \<open>The driver, the semaphores and the device\<close>

text \<open>
  A pointer handed to the driver is either a cell of a ring buffer's storage, given by
  its index (\<open>getFrontContiguousBuffer\<close> and \<open>getBackContiguousBuffer\<close> return such a
  pointer), or the caller's buffer, given by its bytes.
\<close>

datatype pointer = Ring nat | Caller "uint8_t list"

text \<open>
  \<open>os::cmsis::driver::Serial\<close> is an abstract class (declared in
  \<open>posix-drivers/cmsis-driver-serial.h\<close>); the header only calls its virtual
  methods. It is taken as a parameter: a record of the methods over a driver state
  \<open>'drv\<close> that the device holds. Each method returns its status and the new state;
  \<open>get_status_tx_busy\<close> is the field \<open>tx_busy\<close> of \<open>get_status()\<close>. The method
  \<open>power\<close> is named \<open>power_state\<close> here.
\<close>

record 'drv Serial =
  initialize :: "'drv \<Rightarrow> int32_t \<times> 'drv"
  uninitialize :: "'drv \<Rightarrow> int32_t \<times> 'drv"
  power_state :: "ARM_POWER_STATE \<Rightarrow> 'drv \<Rightarrow> int32_t \<times> 'drv"
  control :: "uint32_t \<Rightarrow> uint32_t \<Rightarrow> 'drv \<Rightarrow> int32_t \<times> 'drv"
  send :: "pointer \<Rightarrow> nat \<Rightarrow> 'drv \<Rightarrow> int32_t \<times> 'drv"
  receive :: "pointer \<Rightarrow> nat \<Rightarrow> 'drv \<Rightarrow> int32_t \<times> 'drv"
  get_status_tx_busy :: "'drv \<Rightarrow> bool"
  get_tx_count :: "'drv \<Rightarrow> size_t"
  get_rx_count :: "'drv \<Rightarrow> size_t"

text \<open>
  The history of the calls the device makes on the driver, and of the bytes
  \<open>tx_buf_->pushBack\<close> accepted from a writer. The code never reads it; it is kept so
  that the order of these effects can be stated.
\<close>

datatype action =
    Initialize
  | Uninitialize
  | Power ARM_POWER_STATE
  | Control uint32_t uint32_t
  | Send pointer nat
  | Receive pointer nat
  | PushBack "uint8_t list"

text \<open>
  An \<open>osSemaphoreId\<close> is null (\<open>None\<close>) or a semaphore of the RTOS with its number of
  available tokens. \<open>osSemaphoreCreate\<close> returns null when the RTOS cannot allocate one
  (the first argument here); \<open>osSemaphoreRelease\<close> adds a token and does nothing on a
  null id.
\<close>

type_synonym osSemaphoreId = "nat option"

definition osSemaphoreCreate :: "bool \<Rightarrow> nat \<Rightarrow> osSemaphoreId" where
  "osSemaphoreCreate available count = (if available then Some count else None)"

definition osSemaphoreRelease :: "osSemaphoreId \<Rightarrow> osSemaphoreId" where
  "osSemaphoreRelease s = map_option Suc s"

text \<open>
  The members of \<open>Buffered_serial_device\<close> (lines 113 to 126), without the trailing
  underscore of their C++ names, and the history. \<open>rx_buf\<close> is never null (the
  constructor asserts it); \<open>tx_buf\<close> may be. The two buffers are distinct objects.
\<close>

record 'drv Buffered_serial_device =
  driver :: 'drv
  rx_sem :: osSemaphoreId
  tx_sem :: osSemaphoreId
  rx_buf :: ByteCircularBuffer
  tx_buf :: "ByteCircularBuffer option"
  rx_count :: size_t
  tx_busy :: bool
  trace :: "action list"

text \<open>A call \<open>driver_->f (...)\<close>: the driver's state changes, the call is recorded.\<close>

definition driver_call ::
  "action \<Rightarrow> ('drv \<Rightarrow> int32_t \<times> 'drv) \<Rightarrow> 'drv Buffered_serial_device
     \<Rightarrow> int32_t \<times> 'drv Buffered_serial_device" where
  "driver_call a f d =
     (let (status, drv) = f (driver d)
      in (status, d\<lparr>driver := drv, trace := trace d @ [a]\<rparr>))"

section \<open>The interrupt handler\<close>

text \<open>
  A failing \<open>assert\<close> aborts the program: \<open>assert(count == adjust)\<close> (lines 460 and
  495), \<open>assert(nbyte > 0)\<close> (line 473) and \<open>assert(status == ARM_DRIVER_OK)\<close> (lines
  479 and 504). \<open>Null_tx_buf\<close> is a call through a null \<open>tx_buf_\<close> in the buffered
  branch of \<open>do_write\<close>, which the test at its entry excludes as long as nothing resets
  the member.
\<close>

datatype fault = Assert_count_adjust | Assert_nbyte | Assert_status | Null_tx_buf

definition and_also :: "fault + 'a \<Rightarrow> ('a \<Rightarrow> fault + 'b) \<Rightarrow> fault + 'b" where
  "and_also r k = (case r of Inl f \<Rightarrow> Inl f | Inr x \<Rightarrow> k x)"

text \<open>
  Lines 462 to 482 of \<open>do_signal_event\<close>: on \<open>ARM_USART_EVENT_RECEIVE_COMPLETE\<close> the
  receive is issued again, into the back-contiguous segment, after a \<open>retreatBack\<close> when
  that segment is empty.
\<close>

definition rearm_receive ::
  "'drv Serial \<Rightarrow> 'drv Buffered_serial_device \<Rightarrow> fault + 'drv Buffered_serial_device" where
  "rearm_receive vt d =
     (let (nbyte, pbuf) = getBackContiguousBuffer (rx_buf d);
          d1 = (if nbyte = 0 then d\<lparr>rx_buf := retreatBack (rx_buf d)\<rparr> else d);
          (nbyte, pbuf) = (if nbyte = 0 then getBackContiguousBuffer (rx_buf d1)
                           else (nbyte, pbuf))
      in if \<not> 0 < nbyte then Inl Assert_nbyte
         else
           let (status, d2) = driver_call (Receive (Ring pbuf) nbyte)
                                (receive vt (Ring pbuf) nbyte) d1
           in if status \<noteq> ARM_DRIVER_OK then Inl Assert_status
              else Inr (d2\<lparr>rx_count := 0\<rparr>))"

text \<open>Lines 451 to 488: the receive-related events.\<close>

definition receive_events ::
  "'drv Serial \<Rightarrow> uint32_t \<Rightarrow> 'drv Buffered_serial_device
     \<Rightarrow> fault + 'drv Buffered_serial_device" where
  "receive_events vt event d =
     (let tmpCount = get_rx_count vt (driver d);
          count = tmpCount - rx_count d;
          d1 = d\<lparr>rx_count := tmpCount\<rparr>;
          (adjust, rb) = advanceBack (unat count) (rx_buf d1);
          d2 = d1\<lparr>rx_buf := rb\<rparr>
      in if unat count \<noteq> adjust then Inl Assert_count_adjust
         else
           and_also
             (if event AND ARM_USART_EVENT_RECEIVE_COMPLETE \<noteq> 0
              then rearm_receive vt d2 else Inr d2)
             (\<lambda>d3. Inr (if 0 < count
                        then d3\<lparr>rx_sem := osSemaphoreRelease (rx_sem d3)\<rparr> else d3)))"

text \<open>Lines 489 to 521: the transmit-complete event.\<close>

definition transmit_complete ::
  "'drv Serial \<Rightarrow> 'drv Buffered_serial_device \<Rightarrow> fault + 'drv Buffered_serial_device" where
  "transmit_complete vt d =
     (case tx_buf d of
        None \<Rightarrow> Inr (d\<lparr>tx_sem := osSemaphoreRelease (tx_sem d)\<rparr>)
      | Some tb \<Rightarrow>
          let count = get_tx_count vt (driver d);
              (adjust, tb1) = advanceFront (unat count) tb;
              d1 = d\<lparr>tx_buf := Some tb1\<rparr>
          in if unat count \<noteq> adjust then Inl Assert_count_adjust
             else
               let (nbyte, pbuf) = getFrontContiguousBuffer tb1
               in and_also
                    (if 0 < nbyte
                     then
                       let (status, d2) = driver_call (Send (Ring pbuf) nbyte)
                                            (send vt (Ring pbuf) nbyte) d1
                       in if status \<noteq> ARM_DRIVER_OK then Inl Assert_status else Inr d2
                     else Inr (d1\<lparr>tx_busy := False\<rparr>))
                    (\<lambda>d3. Inr (if isBelowLowWaterMark tb1
                               then d3\<lparr>tx_sem := osSemaphoreRelease (tx_sem d3)\<rparr> else d3)))"

text \<open>\<open>Buffered_serial_device::do_signal_event\<close> (lines 447 to 522).\<close>

definition do_signal_event ::
  "'drv Serial \<Rightarrow> uint32_t \<Rightarrow> 'drv Buffered_serial_device
     \<Rightarrow> fault + 'drv Buffered_serial_device" where
  "do_signal_event vt event d =
     and_also
       (if event AND (ARM_USART_EVENT_RECEIVE_COMPLETE OR ARM_USART_EVENT_RX_FRAMING_ERROR
                      OR ARM_USART_EVENT_RX_TIMEOUT) \<noteq> 0
        then receive_events vt event d else Inr d)
       (\<lambda>d1. if event AND ARM_USART_EVENT_TX_COMPLETE \<noteq> 0
             then transmit_complete vt d1 else Inr d1)"

section \<open>Threads, interrupts and blocking\<close>

text \<open>
  An interrupt is what the hardware did to the driver's state since the driver was last
  looked at, and the event mask the driver then passes to \<open>signal_event\<close>. A schedule
  lists, for the successive places where a thread can be preempted, the interrupts
  served there. A thread can be preempted between two accesses to the shared state,
  not inside a \<open>Critical_section\<close>; where the schedule has run out no interrupt comes
  any more.
\<close>

type_synonym 'drv irq = "('drv \<Rightarrow> 'drv) \<times> uint32_t"
type_synonym 'drv schedule = "'drv irq list list"

fun interrupts ::
  "'drv Serial \<Rightarrow> 'drv irq list \<Rightarrow> 'drv Buffered_serial_device
     \<Rightarrow> fault + 'drv Buffered_serial_device" where
  "interrupts vt [] d = Inr d"
| "interrupts vt (i # rest) d =
     and_also (do_signal_event vt (snd i) (d\<lparr>driver := fst i (driver d)\<rparr>))
       (interrupts vt rest)"

text \<open>
  What becomes of a call made by a thread: it returns a value, in a state and with the
  rest of the schedule; or it stays blocked in \<open>osSemaphoreWait\<close> for ever, no interrupt
  being left to release the semaphore; or an assertion aborts the program; or it waits
  on a null semaphore id, which only a device that is not open has.
\<close>

datatype ('drv, 'a) outcome =
    Returns 'a "'drv Buffered_serial_device" "'drv schedule"
  | Blocked "'drv Buffered_serial_device"
  | Aborted fault
  | Bad_semaphore

definition and_then ::
  "('drv, 'a) outcome
     \<Rightarrow> ('a \<Rightarrow> 'drv Buffered_serial_device \<Rightarrow> 'drv schedule \<Rightarrow> ('drv, 'b) outcome)
     \<Rightarrow> ('drv, 'b) outcome" where
  "and_then m k =
     (case m of
        Returns x d env \<Rightarrow> k x d env
      | Blocked d \<Rightarrow> Blocked d
      | Aborted f \<Rightarrow> Aborted f
      | Bad_semaphore \<Rightarrow> Bad_semaphore)"

lemma and_then_cong [fundef_cong]:
  "m = m' \<Longrightarrow> (\<And>x d env. m' = Returns x d env \<Longrightarrow> k x d env = k' x d env)
     \<Longrightarrow> and_then m k = and_then m' k'"
  by (auto simp: and_then_def split: outcome.splits)

text \<open>A place where the thread can be preempted: the next entry of the schedule is served.\<close>

definition preempt ::
  "'drv Serial \<Rightarrow> 'drv schedule \<Rightarrow> 'drv Buffered_serial_device \<Rightarrow> ('drv, unit) outcome" where
  "preempt vt env d =
     (case env of
        [] \<Rightarrow> Returns () d []
      | w # ws \<Rightarrow> (case interrupts vt w d of Inl f \<Rightarrow> Aborted f | Inr d' \<Rightarrow> Returns () d' ws))"

datatype semaphore = Rx_sem | Tx_sem

fun sem_of :: "semaphore \<Rightarrow> 'drv Buffered_serial_device \<Rightarrow> osSemaphoreId" where
  "sem_of Rx_sem d = rx_sem d"
| "sem_of Tx_sem d = tx_sem d"

fun sem_update ::
  "semaphore \<Rightarrow> osSemaphoreId \<Rightarrow> 'drv Buffered_serial_device
     \<Rightarrow> 'drv Buffered_serial_device" where
  "sem_update Rx_sem v d = d\<lparr>rx_sem := v\<rparr>"
| "sem_update Tx_sem v d = d\<lparr>tx_sem := v\<rparr>"

text \<open>
  Taking a token: \<open>None\<close> on a null id, \<open>Some None\<close> when no token is available, else
  the state with one token less.
\<close>

definition acquire ::
  "semaphore \<Rightarrow> 'drv Buffered_serial_device \<Rightarrow> 'drv Buffered_serial_device option option" where
  "acquire s d =
     (case sem_of s d of
        None \<Rightarrow> None
      | Some 0 \<Rightarrow> Some None
      | Some (Suc k) \<Rightarrow> Some (Some (sem_update s (Some k) d)))"

text \<open>
  \<open>osSemaphoreWait (sem, osWaitForever)\<close>, the place of preemption that ends when the
  thread has taken a token: the interrupts of the next entry of the schedule are served
  (before the call or while the thread is suspended), then the token is taken if there
  is one, and otherwise the thread stays suspended over the next entry.
\<close>

fun osSemaphoreWait ::
  "'drv Serial \<Rightarrow> semaphore \<Rightarrow> 'drv schedule \<Rightarrow> 'drv Buffered_serial_device
     \<Rightarrow> ('drv, unit) outcome" where
  "osSemaphoreWait vt s [] d =
     (case acquire s d of
        None \<Rightarrow> Bad_semaphore
      | Some None \<Rightarrow> Blocked d
      | Some (Some d') \<Rightarrow> Returns () d' [])"
| "osSemaphoreWait vt s (w # ws) d =
     (case interrupts vt w d of
        Inl f \<Rightarrow> Aborted f
      | Inr d1 \<Rightarrow>
          (case acquire s d1 of
             None \<Rightarrow> Bad_semaphore
           | Some None \<Rightarrow> osSemaphoreWait vt s ws d1
           | Some (Some d') \<Rightarrow> Returns () d' ws))"

section \<open>Open and close\<close>

text \<open>
  The block \<open>do { ... } while (false)\<close> of \<open>do_vopen\<close> (lines 181 to 240), with its
  \<open>break\<close>s; the result is the local \<open>result\<close>. The pair \<open>os\<close> says whether the RTOS can
  allocate the first and the second semaphore.
\<close>

definition open_sequence ::
  "'drv Serial \<Rightarrow> bool \<times> bool \<Rightarrow> 'drv Buffered_serial_device
     \<Rightarrow> int32_t \<times> 'drv Buffered_serial_device" where
  "open_sequence vt os d =
     (let d1 = d\<lparr>rx_sem := osSemaphoreCreate (fst os) 0\<rparr>;
          d2 = d1\<lparr>tx_sem := osSemaphoreCreate (snd os) 0\<rparr>
      in if rx_sem d2 = None \<or> tx_sem d2 = None then (ARM_DRIVER_ERROR, d2)
         else
           let d3 = d2\<lparr>rx_buf := clear (rx_buf d2)\<rparr>;
               d4 = (case tx_buf d3 of
                       None \<Rightarrow> d3
                     | Some tb \<Rightarrow> d3\<lparr>tx_buf := Some (clear tb)\<rparr>);
               (result, d5) = driver_call Initialize (initialize vt) d4
           in if result \<noteq> ARM_DRIVER_OK then (result, d5)
              else
                let (result, d6) = driver_call (Power ARM_POWER_FULL)
                                     (power_state vt ARM_POWER_FULL) d5
                in if result \<noteq> ARM_DRIVER_OK then (result, d6)
                   else
                     let mode = ARM_USART_MODE_ASYNCHRONOUS OR ARM_USART_DATA_BITS_8
                                OR ARM_USART_PARITY_NONE OR ARM_USART_STOP_BITS_1
                                OR ARM_USART_FLOW_CONTROL_NONE;
                         (result, d7) = driver_call (Control mode 115200)
                                          (control vt mode 115200) d6
                     in if result \<noteq> ARM_DRIVER_OK then (result, d7)
                        else
                          let (result, d8) = driver_call (Control ARM_USART_CONTROL_TX 1)
                                               (control vt ARM_USART_CONTROL_TX 1) d7
                          in if result \<noteq> ARM_DRIVER_OK then (result, d8)
                             else
                               let (result, d9) = driver_call (Control ARM_USART_CONTROL_RX 1)
                                                    (control vt ARM_USART_CONTROL_RX 1) d8
                               in if result \<noteq> ARM_DRIVER_OK then (result, d9)
                                  else
                                    let (nbyte, pbuf) = getBackContiguousBuffer (rx_buf d9)
                                    in driver_call (Receive (Ring pbuf) nbyte)
                                         (receive vt (Ring pbuf) nbyte) d9)"

text \<open>
  \<open>Buffered_serial_device::do_vopen\<close> (lines 168 to 253); \<open>path\<close>, \<open>oflag\<close> and \<open>args\<close>
  are not used by the code. The result is \<open>Inl e\<close> for \<open>errno = e; return -1\<close> and
  \<open>Inr 0\<close> for \<open>return 0\<close>.
\<close>

definition do_vopen ::
  "'drv Serial \<Rightarrow> bool \<times> bool \<Rightarrow> 'drv Buffered_serial_device
     \<Rightarrow> (errno + int) \<times> 'drv Buffered_serial_device" where
  "do_vopen vt os d =
     (if rx_sem d \<noteq> None then (Inl EEXIST, d)
      else
        let (result, d1) = open_sequence vt os d
        in if result \<noteq> ARM_DRIVER_OK then
             let (r2, d2) = driver_call (Power ARM_POWER_OFF) (power_state vt ARM_POWER_OFF) d1;
                 (r3, d3) = driver_call Uninitialize (uninitialize vt) d2
             in (Inl ENOSR, d3)
           else (Inr 0, d1))"

text \<open>\<open>Buffered_serial_device::doIsOpened\<close> (lines 255 to 260).\<close>

definition doIsOpened :: "'drv Buffered_serial_device \<Rightarrow> bool" where
  "doIsOpened d \<longleftrightarrow> rx_sem d \<noteq> None"

text \<open>\<open>Buffered_serial_device::do_close\<close> (lines 262 to 280).\<close>

definition do_close ::
  "'drv Serial \<Rightarrow> 'drv Buffered_serial_device \<Rightarrow> int \<times> 'drv Buffered_serial_device" where
  "do_close vt d =
     (let d1 = d\<lparr>rx_sem := None\<rparr>;
          d2 = d1\<lparr>tx_sem := None\<rparr>;
          (r3, d3) = driver_call (Control ARM_USART_CONTROL_TX 0)
                       (control vt ARM_USART_CONTROL_TX 0) d2;
          (r4, d4) = driver_call (Control ARM_USART_CONTROL_RX 0)
                       (control vt ARM_USART_CONTROL_RX 0) d3;
          (r5, d5) = driver_call (Power ARM_POWER_OFF) (power_state vt ARM_POWER_OFF) d4;
          (r6, d6) = driver_call Uninitialize (uninitialize vt) d5
      in (0, d6))"

section \<open>Read and write\<close>

text \<open>
  \<open>Buffered_serial_device::do_read\<close> (lines 282 to 305). The result is the count returned
  and the bytes copied to \<open>buf\<close>. The count is a natural number here: the conversion of
  the \<open>size_t\<close> count to the \<open>ssize_t\<close> return value is the identity for every count
  below \<open>2 ^ 31\<close> and is not modelled beyond that.
\<close>

function do_read ::
  "'drv Serial \<Rightarrow> 'drv schedule \<Rightarrow> 'drv Buffered_serial_device \<Rightarrow> nat
     \<Rightarrow> ('drv, nat \<times> uint8_t list) outcome" where
  "do_read vt env d nbyte =
     (let (count, bytes, rb) = popFront nbyte (rx_buf d);
          d1 = d\<lparr>rx_buf := rb\<rparr>
      in if 0 < count then Returns (count, bytes) d1 env
         else
           and_then (osSemaphoreWait vt Rx_sem env d1) (\<lambda>u d2 env2.
             do_read vt env2 d2 nbyte))"
  by pat_completeness auto

text \<open>
  \<open>tx_buf_->pushBack\<close> by a writer, under the critical section: the bytes accepted are
  recorded in the history.
\<close>

definition admit ::
  "uint8_t list \<Rightarrow> ByteCircularBuffer \<Rightarrow> 'drv Buffered_serial_device
     \<Rightarrow> nat \<times> 'drv Buffered_serial_device" where
  "admit data tb d =
     (let (n, tb') = pushBack data tb
      in (n, d\<lparr>tx_buf := Some tb', trace := trace d @ [PushBack (take n data)]\<rparr>))"

text \<open>
  Lines 316 to 326 of \<open>do_write\<close>: the first admission, made only when the buffer is
  below its high watermark. The result is the local \<open>count\<close>.
\<close>

definition first_admission ::
  "uint8_t list \<Rightarrow> ByteCircularBuffer \<Rightarrow> 'drv Buffered_serial_device
     \<Rightarrow> nat \<times> 'drv Buffered_serial_device" where
  "first_admission buf tb d = (if isBelowHighWaterMark tb then admit buf tb d else (0, d))"

text \<open>
  Lines 352 to 357: the send of a segment, and \<open>tx_busy_ = true\<close> after it. The thread
  can be preempted between the two.
\<close>

definition issue_send ::
  "'drv Serial \<Rightarrow> nat \<Rightarrow> nat \<Rightarrow> 'drv schedule \<Rightarrow> 'drv Buffered_serial_device
     \<Rightarrow> ('drv, errno + unit) outcome" where
  "issue_send vt pbuf nb env d =
     (let (status, d1) = driver_call (Send (Ring pbuf) nb) (send vt (Ring pbuf) nb) d
      in if status \<noteq> ARM_DRIVER_OK then Returns (Inl EIO) d1 env
         else
           and_then (preempt vt env d1) (\<lambda>u d2 env2.
             Returns (Inr ()) (d2\<lparr>tx_busy := True\<rparr>) env2))"

text \<open>
  Lines 341 to 359: the statement \<open>if (!tx_busy_) { ... }\<close>. The thread can be preempted
  before it reads \<open>tx_busy_\<close>, before it enters the critical section and before it calls
  \<open>send\<close>.
\<close>

definition start_send ::
  "'drv Serial \<Rightarrow> 'drv schedule \<Rightarrow> 'drv Buffered_serial_device
     \<Rightarrow> ('drv, errno + unit) outcome" where
  "start_send vt env d =
     and_then (preempt vt env d) (\<lambda>u d1 env1.
       if \<not> tx_busy d1 then
         and_then (preempt vt env1 d1) (\<lambda>u d2 env2.
           case tx_buf d2 of
             None \<Rightarrow> Aborted Null_tx_buf
           | Some tb \<Rightarrow>
               let (nb, pbuf) = getFrontContiguousBuffer tb
               in if 0 < nb then
                    and_then (preempt vt env2 d2) (\<lambda>u d3 env3. issue_send vt pbuf nb env3 d3)
                  else Returns (Inr ()) d2 env2)
       else Returns (Inr ()) d1 env1)"

text \<open>
  Lines 327 to 386: the loop \<open>while (true)\<close> of the buffered branch. \<open>buf\<close> is the
  caller's data, \<open>nbyte\<close> its length (a \<open>std::size_t\<close>, so below \<open>2 ^ 32\<close> in every call
  the code can receive), \<open>count\<close> the local of that name. \<open>return nbyte\<close> converts the
  \<open>std::size_t\<close> to the \<open>ssize_t\<close> result.
\<close>

function do_write_loop ::
  "'drv Serial \<Rightarrow> 'drv schedule \<Rightarrow> 'drv Buffered_serial_device \<Rightarrow> uint8_t list \<Rightarrow> nat
     \<Rightarrow> ('drv, errno + ssize_t) outcome" where
  "do_write_loop vt env d buf count =
     and_then (start_send vt env d) (\<lambda>r d1 env1.
       case r of
         Inl e \<Rightarrow> Returns (Inl e) d1 env1
       | Inr u \<Rightarrow>
           if count = length buf then Returns (Inr (to_ssize_t (of_nat (length buf)))) d1 env1
           else
             and_then (osSemaphoreWait vt Tx_sem env1 d1) (\<lambda>u d2 env2.
               if count < length buf then
                 (case tx_buf d2 of
                    None \<Rightarrow> Aborted Null_tx_buf
                  | Some tb \<Rightarrow>
                      let (n, d3) = admit (drop count buf) tb d2
                      in do_write_loop vt env2 d3 buf (count + n))
               else do_write_loop vt env2 d2 buf count))"
  by pat_completeness auto

text \<open>
  \<open>Buffered_serial_device::do_write\<close> (lines 307 to 415). The result is \<open>Inl EIO\<close> for
  \<open>errno = EIO\<close> with the return value -1, and \<open>Inr v\<close> for the return of the value v
  with \<open>errno\<close> untouched. In the branch without a tx buffer \<open>return count\<close> converts the
  driver's \<open>get_tx_count ()\<close> to \<open>ssize_t\<close>, so that a driver count of \<open>0xFFFFFFFF\<close> is
  returned as -1.
\<close>

definition do_write ::
  "'drv Serial \<Rightarrow> 'drv schedule \<Rightarrow> 'drv Buffered_serial_device \<Rightarrow> uint8_t list
     \<Rightarrow> ('drv, errno + ssize_t) outcome" where
  "do_write vt env d buf =
     (case tx_buf d of
        Some tb \<Rightarrow>
          let (count, d1) = first_admission buf tb d
          in do_write_loop vt env d1 buf count
      | None \<Rightarrow>
          and_then (if get_status_tx_busy vt (driver d)
                    then osSemaphoreWait vt Tx_sem env d else preempt vt env d) (\<lambda>u d1 env1.
            let (status, d2) = driver_call (Send (Caller buf) (length buf))
                                 (send vt (Caller buf) (length buf)) d1
            in if status = ARM_DRIVER_OK then
                 and_then (osSemaphoreWait vt Tx_sem env1 d2) (\<lambda>u d3 env3.
                   Returns (Inr (to_ssize_t (get_tx_count vt (driver d3)))) d3 env3)
               else Returns (Inl EIO) d2 env1))"

section \<open>What a call leaves behind\<close>

text \<open>The bytes a writer's \<open>pushBack\<close> calls have put into the tx buffer, in order.\<close>

fun admitted :: "action list \<Rightarrow> uint8_t list" where
  "admitted [] = []"
| "admitted (PushBack bs # rest) = bs @ admitted rest"
| "admitted (a # rest) = admitted rest"

text \<open>
  What no interrupt and no wait changes: whether the device has a tx buffer and its two
  semaphores, and what writers have put into the tx buffer.
\<close>

definition same_session ::
  "'drv Buffered_serial_device \<Rightarrow> 'drv Buffered_serial_device \<Rightarrow> bool" where
  "same_session d d' \<longleftrightarrow>
     (tx_buf d' = None) = (tx_buf d = None) \<and>
     (rx_sem d' = None) = (rx_sem d = None) \<and>
     (tx_sem d' = None) = (tx_sem d = None) \<and>
     admitted (trace d') = admitted (trace d)"

text \<open>The state a call ends in, when it returns or stays blocked.\<close>

definition final_state :: "('drv, 'a) outcome \<Rightarrow> 'drv Buffered_serial_device option" where
  "final_state out =
     (case out of
        Returns r d env \<Rightarrow> Some d
      | Blocked d \<Rightarrow> Some d
      | Aborted f \<Rightarrow> None
      | Bad_semaphore \<Rightarrow> None)"

text \<open>
  A schedule in which no interrupt reports a transmission complete: what the hardware
  can still raise when the driver has no transmission in flight.
\<close>

definition rx_only :: "'drv schedule \<Rightarrow> bool" where
  "rx_only env = list_all (list_all (\<lambda>i. snd i AND ARM_USART_EVENT_TX_COMPLETE = 0)) env"

section \<open>A driver double and sample devices\<close>

text \<open>
  A driver whose state is its two counters \<open>(rx count, tx count)\<close>: \<open>initialize\<close> and
  \<open>send\<close> answer with the given statuses, a send of n bytes sets the tx count to n, a
  receive restarts the rx count.
\<close>

definition test_driver :: "int32_t \<Rightarrow> int32_t \<Rightarrow> (size_t \<times> size_t) Serial" where
  "test_driver init_status send_status =
     \<lparr>initialize = (\<lambda>s. (init_status, s)),
      uninitialize = (\<lambda>s. (ARM_DRIVER_OK, s)),
      power_state = (\<lambda>p s. (ARM_DRIVER_OK, s)),
      control = (\<lambda>c a s. (ARM_DRIVER_OK, s)),
      send = (\<lambda>p n s. (send_status, (fst s, of_nat n))),
      receive = (\<lambda>p n s. (ARM_DRIVER_OK, (0, snd s))),
      get_status_tx_busy = (\<lambda>s. False),
      get_tx_count = snd,
      get_rx_count = fst\<rparr>"

text \<open>An empty ring of capacity c with the thresholds hi and lo.\<close>

definition ring :: "nat \<Rightarrow> nat \<Rightarrow> nat \<Rightarrow> ByteCircularBuffer" where
  "ring c hi lo =
     \<lparr>storage = replicate c 0, read_cursor = 0, write_cursor = 0, occupied = 0,
      high_watermark = hi, low_watermark = lo\<rparr>"

text \<open>
  A device as constructed (rx capacity 4, tx capacity 32 with high 24 and low 8), the
  same device open, and the open device with the two bytes \<open>A\<close>, \<open>B\<close> received.
\<close>

definition closed_device :: "(size_t \<times> size_t) Buffered_serial_device" where
  "closed_device =
     \<lparr>driver = (0, 0), rx_sem = None, tx_sem = None, rx_buf = ring 4 3 1,
      tx_buf = Some (ring 32 24 8), rx_count = 0, tx_busy = False, trace = []\<rparr>"

definition open_device :: "(size_t \<times> size_t) Buffered_serial_device" where
  "open_device = closed_device\<lparr>rx_sem := Some 0, tx_sem := Some 0\<rparr>"

definition reader_device :: "(size_t \<times> size_t) Buffered_serial_device" where
  "reader_device =
     open_device\<lparr>rx_buf :=
       \<lparr>storage = [0x41, 0x42, 0, 0], read_cursor = 0, write_cursor = 2, occupied = 2,
        high_watermark = 3, low_watermark = 1\<rparr>\<rparr>"

text \<open>An interrupt after which the driver has counted n bytes more.\<close>

definition received :: "nat \<Rightarrow> uint32_t \<Rightarrow> (size_t \<times> size_t) irq" where
  "received n event = ((\<lambda>s. (fst s + of_nat n, snd s)), event)"

text \<open>
  The open device with a full rx ring of two cells in the making: \<open>A\<close> is committed and
  unread, the receiver has stored \<open>B\<close> in the second cell and counted it. And the state
  the handler leaves it in on receive-complete.
\<close>

definition overrun_device :: "(size_t \<times> size_t) Buffered_serial_device" where
  "overrun_device =
     open_device\<lparr>driver := (1, 0),
       rx_buf := \<lparr>storage = [0x41, 0x42], read_cursor = 0, write_cursor = 1, occupied = 1,
                  high_watermark = 2, low_watermark = 1\<rparr>\<rparr>"

definition overrun_after :: "(size_t \<times> size_t) Buffered_serial_device" where
  "overrun_after =
     overrun_device\<lparr>driver := (0, 0), rx_sem := Some 1,
       rx_buf := \<lparr>storage = [0x41, 0x42], read_cursor = 0, write_cursor = 1, occupied = 1,
                  high_watermark = 2, low_watermark = 1\<rparr>,
       trace := [Receive (Ring 1) 1]\<rparr>"

text \<open>
  The open device with a full tx ring and a transmission in flight, of which the driver
  has sent 30 bytes.
\<close>

definition full_ring :: ByteCircularBuffer where
  "full_ring =
     \<lparr>storage = replicate 32 0, read_cursor = 0, write_cursor = 0, occupied = 32,
      high_watermark = 24, low_watermark = 8\<rparr>"

definition sender_device :: "(size_t \<times> size_t) Buffered_serial_device" where
  "sender_device = open_device\<lparr>driver := (0, 30), tx_busy := True, tx_buf := Some full_ring\<rparr>"

text \<open>A hundred bytes to write, and the interrupt that reports a transmission complete.\<close>

definition hundred :: "uint8_t list" where
  "hundred = replicate 100 0x55"

definition tx_done :: "(size_t \<times> size_t) irq" where
  "tx_done = (id, ARM_USART_EVENT_TX_COMPLETE)"

text \<open>
  A driver that accepts a send only while its tx count is zero, that is, the first send
  and no other.
\<close>

definition once_driver :: "(size_t \<times> size_t) Serial" where
  "once_driver =
     (test_driver 0 0)
       \<lparr>send := (\<lambda>p n s. (if snd s = 0 then ARM_DRIVER_OK else ARM_DRIVER_ERROR,
                             (fst s, of_nat n)))\<rparr>"


section \<open>Termination of the two loops\<close>

text \<open>
  Every turn of a loop goes through \<open>osSemaphoreWait\<close>, which uses up an entry of the
  schedule or, when the schedule has run out, a token of the semaphore.
\<close>

definition tokens :: "osSemaphoreId \<Rightarrow> nat" where
  "tokens s = (case s of None \<Rightarrow> 0 | Some k \<Rightarrow> k)"

lemma and_then_Returns:
  "and_then m k = Returns r d' env' \<longleftrightarrow>
     (\<exists>x d1 env1. m = Returns x d1 env1 \<and> k x d1 env1 = Returns r d' env')"
  by (cases m) (auto simp: and_then_def)

lemma driver_call_simps [simp]:
  "fst (driver_call a f d) = fst (f (driver d))"
  "driver (snd (driver_call a f d)) = snd (f (driver d))"
  "trace (snd (driver_call a f d)) = trace d @ [a]"
  "rx_sem (snd (driver_call a f d)) = rx_sem d"
  "tx_sem (snd (driver_call a f d)) = tx_sem d"
  "rx_buf (snd (driver_call a f d)) = rx_buf d"
  "tx_buf (snd (driver_call a f d)) = tx_buf d"
  "rx_count (snd (driver_call a f d)) = rx_count d"
  "tx_busy (snd (driver_call a f d)) = tx_busy d"
  by (simp_all add: driver_call_def split_def Let_def)

lemma admit_simps [simp]:
  "fst (admit data tb d) = fst (pushBack data tb)"
  "tx_buf (snd (admit data tb d)) = Some (snd (pushBack data tb))"
  "trace (snd (admit data tb d)) = trace d @ [PushBack (take (fst (pushBack data tb)) data)]"
  "driver (snd (admit data tb d)) = driver d"
  "rx_sem (snd (admit data tb d)) = rx_sem d"
  "tx_sem (snd (admit data tb d)) = tx_sem d"
  "rx_buf (snd (admit data tb d)) = rx_buf d"
  "rx_count (snd (admit data tb d)) = rx_count d"
  "tx_busy (snd (admit data tb d)) = tx_busy d"
  by (simp_all add: admit_def split_def Let_def)

lemma acquire_Some:
  "acquire s d = Some (Some d') \<Longrightarrow> tokens (sem_of s d') < tokens (sem_of s d)"
  by (cases s) (auto simp: acquire_def tokens_def split: option.splits nat.splits)

lemma osSemaphoreWait_decreases:
  "osSemaphoreWait vt s env d = Returns u d' env' \<Longrightarrow>
     length env' < length env \<or> (env' = env \<and> tokens (sem_of s d') < tokens (sem_of s d))"
proof (induction vt s env d rule: osSemaphoreWait.induct)
  case (1 vt s d)
  then show ?case
    by (auto split: option.splits dest: acquire_Some)
next
  case (2 vt s w ws d)
  then show ?case
    by (fastforce split: option.splits sum.splits)
qed

lemma preempt_Returns:
  "preempt vt env d = Returns u d1 env1 \<Longrightarrow>
     (env = [] \<and> env1 = [] \<and> d1 = d) \<or> (\<exists>w. env = w # env1 \<and> interrupts vt w d = Inr d1)"
  by (auto simp: preempt_def split: list.splits sum.splits)

lemma preempt_measure:
  "preempt vt env d = Returns u d1 env1 \<Longrightarrow>
     length env1 < length env \<or> (env1 = env \<and> d1 = d)"
  by (auto dest: preempt_Returns)

lemma issue_send_measure:
  "issue_send vt pbuf nb env d = Returns r d1 env1 \<Longrightarrow>
     length env1 < length env \<or> (env1 = env \<and> tx_sem d1 = tx_sem d)"
  by (auto simp: issue_send_def split_def Let_def and_then_Returns split: if_splits
           dest!: preempt_measure)

lemma start_send_measure:
  "start_send vt env d = Returns r d1 env1 \<Longrightarrow>
     length env1 < length env \<or> (env1 = env \<and> tx_sem d1 = tx_sem d)"
  by (auto simp: start_send_def split_def Let_def and_then_Returns
           split: if_splits option.splits
           dest!: preempt_measure issue_send_measure)

termination do_read
proof (relation "measures [\<lambda>(vt, env, d, nbyte). length env,
                           \<lambda>(vt, env, d, nbyte). tokens (rx_sem d)]", goal_cases)
  case 1
  show ?case by simp
next
  case (2 vt env d nbyte x count y bytes rb d1 u d2 env2)
  from \<open>osSemaphoreWait vt Rx_sem env d1 = Returns u d2 env2\<close>
  have "length env2 < length env \<or> (env2 = env \<and> tokens (rx_sem d2) < tokens (rx_sem d1))"
    by (auto dest: osSemaphoreWait_decreases)
  moreover have "rx_sem d1 = rx_sem d"
    using 2 by simp
  ultimately show ?case by auto
qed

termination do_write_loop
proof (relation "measures [\<lambda>(vt, env, d, buf, count). length env,
                           \<lambda>(vt, env, d, buf, count). tokens (tx_sem d)]", goal_cases)
  case 1
  show ?case by simp
next
  case (2 vt env d buf count r d1 env1 u ua d2 env2 tb x n d3)
  from \<open>start_send vt env d = Returns r d1 env1\<close>
  have a: "length env1 < length env \<or> (env1 = env \<and> tx_sem d1 = tx_sem d)"
    by (rule start_send_measure)
  from \<open>osSemaphoreWait vt Tx_sem env1 d1 = Returns ua d2 env2\<close>
  have b: "length env2 < length env1 \<or> (env2 = env1 \<and> tokens (tx_sem d2) < tokens (tx_sem d1))"
    by (auto dest: osSemaphoreWait_decreases)
  have "d3 = snd (admit (drop count buf) tb d2)"
    using 2(7,8) by (metis snd_conv)
  then have c: "tx_sem d3 = tx_sem d2"
    by simp
  show ?case using a b c by auto
next
  case (3 vt env d buf count r d1 env1 u ua d2 env2)
  from \<open>start_send vt env d = Returns r d1 env1\<close>
  have a: "length env1 < length env \<or> (env1 = env \<and> tx_sem d1 = tx_sem d)"
    by (rule start_send_measure)
  from \<open>osSemaphoreWait vt Tx_sem env1 d1 = Returns ua d2 env2\<close>
  have b: "length env2 < length env1 \<or> (env2 = env1 \<and> tokens (tx_sem d2) < tokens (tx_sem d1))"
    by (auto dest: osSemaphoreWait_decreases)
  show ?case using a b by auto
qed

declare do_read.simps [simp del]
declare do_write_loop.simps [simp del]

section \<open>What interrupts and waits preserve\<close>

lemma admitted_append [simp]: "admitted (xs @ ys) = admitted xs @ admitted ys"
  by (induction xs rule: admitted.induct) simp_all

lemma same_session_refl [simp]: "same_session d d"
  by (simp add: same_session_def)

lemma same_session_trans: "same_session a b \<Longrightarrow> same_session b c \<Longrightarrow> same_session a c"
  by (simp add: same_session_def)

lemma and_also_Inr:
  "and_also r k = Inr x \<longleftrightarrow> (\<exists>y. r = Inr y \<and> k y = Inr x)"
  by (cases r) (auto simp: and_also_def)

lemma osSemaphoreRelease_None [simp]: "(osSemaphoreRelease s = None) = (s = None)"
  by (simp add: osSemaphoreRelease_def)

lemma rearm_receive_session:
  "rearm_receive vt d = Inr d' \<Longrightarrow> same_session d d'"
  by (auto simp: rearm_receive_def same_session_def split_def Let_def split: if_splits)

lemma receive_events_session:
  "receive_events vt e d = Inr d' \<Longrightarrow> same_session d d'"
  by (auto simp: receive_events_def split_def Let_def and_also_Inr same_session_def
           split: if_splits dest!: rearm_receive_session)

lemma transmit_complete_session:
  "transmit_complete vt d = Inr d' \<Longrightarrow> same_session d d'"
  by (auto simp: transmit_complete_def split_def Let_def and_also_Inr same_session_def
           split: if_splits option.splits)

lemma do_signal_event_session:
  "do_signal_event vt e d = Inr d' \<Longrightarrow> same_session d d'"
  by (auto simp: do_signal_event_def and_also_Inr split: if_splits
           dest!: receive_events_session transmit_complete_session
           intro: same_session_trans)

lemma interrupts_session:
  "interrupts vt w d = Inr d' \<Longrightarrow> same_session d d'"
proof (induction w arbitrary: d)
  case Nil
  then show ?case by simp
next
  case (Cons i w)
  from Cons.prems obtain d1 where
    a: "do_signal_event vt (snd i) (d\<lparr>driver := fst i (driver d)\<rparr>) = Inr d1"
    and b: "interrupts vt w d1 = Inr d'"
    by (auto simp: and_also_Inr)
  have "same_session (d\<lparr>driver := fst i (driver d)\<rparr>) d1"
    using a by (rule do_signal_event_session)
  then have "same_session d d1"
    by (simp add: same_session_def)
  with Cons.IH [OF b] show ?case
    by (rule same_session_trans [rotated])
qed

lemma preempt_session:
  "preempt vt env d = Returns u d' env' \<Longrightarrow> same_session d d'"
  by (auto dest!: preempt_Returns interrupts_session)

lemma acquire_session:
  "acquire s d = Some (Some d') \<Longrightarrow> same_session d d'"
  by (cases s) (auto simp: acquire_def same_session_def split: option.splits nat.splits)

lemma osSemaphoreWait_session:
  "osSemaphoreWait vt s env d = Returns u d' env' \<Longrightarrow> same_session d d'"
proof (induction vt s env d rule: osSemaphoreWait.induct)
  case (1 vt s d)
  then show ?case
    by (auto split: option.splits dest: acquire_session)
next
  case (2 vt s w ws d)
  then show ?case
    by (auto split: option.splits sum.splits
             dest!: interrupts_session acquire_session intro: same_session_trans)
qed

lemma osSemaphoreWait_Blocked_session:
  "osSemaphoreWait vt s env d = Blocked d' \<Longrightarrow> same_session d d'"
proof (induction vt s env d rule: osSemaphoreWait.induct)
  case (1 vt s d)
  then show ?case
    by (auto split: option.splits)
next
  case (2 vt s w ws d)
  then show ?case
    by (auto split: option.splits sum.splits
             dest!: interrupts_session intro: same_session_trans)
qed

section \<open>The read loop, unfolded\<close>

lemma length_store [simp]: "length (store s i xs) = length s"
  by (induction xs arbitrary: s i) simp_all

lemma length_load [simp]: "length (load s i n) = n"
  by (induction n arbitrary: i) simp_all

lemma popFront_simps:
  "fst (popFront len b) = min len (occupied b)"
  "length (fst (snd (popFront len b))) = min len (occupied b)"
  "occupied (snd (snd (popFront len b))) = occupied b - min len (occupied b)"
  by (simp_all add: popFront_def Let_def)

lemma do_read_unfold:
  "do_read vt env d nbyte =
     (if 0 < fst (popFront nbyte (rx_buf d))
      then Returns (fst (popFront nbyte (rx_buf d)), fst (snd (popFront nbyte (rx_buf d))))
             (d\<lparr>rx_buf := snd (snd (popFront nbyte (rx_buf d)))\<rparr>) env
      else (case osSemaphoreWait vt Rx_sem env (d\<lparr>rx_buf := snd (snd (popFront nbyte (rx_buf d)))\<rparr>) of
              Returns u d2 env2 \<Rightarrow> do_read vt env2 d2 nbyte
            | Blocked d2 \<Rightarrow> Blocked d2
            | Aborted f \<Rightarrow> Aborted f
            | Bad_semaphore \<Rightarrow> Bad_semaphore))"
  by (subst do_read.simps) (simp add: split_def Let_def and_then_def)

lemma do_read_induct [case_names step]:
  assumes "\<And>vt env d nbyte.
     (\<And>u d2 env2. fst (popFront nbyte (rx_buf d)) = 0 \<Longrightarrow>
        osSemaphoreWait vt Rx_sem env (d\<lparr>rx_buf := snd (snd (popFront nbyte (rx_buf d)))\<rparr>)
          = Returns u d2 env2 \<Longrightarrow> P vt env2 d2 nbyte)
     \<Longrightarrow> P vt env d nbyte"
  shows "P vt env d nbyte"
proof (induction vt env d nbyte rule: do_read.induct)
  case (1 vt env d nbyte)
  show ?case
  proof (rule assms)
    fix u d2 env2
    assume z: "fst (popFront nbyte (rx_buf d)) = 0"
      and w: "osSemaphoreWait vt Rx_sem env (d\<lparr>rx_buf := snd (snd (popFront nbyte (rx_buf d)))\<rparr>)
                = Returns u d2 env2"
    show "P vt env2 d2 nbyte"
      by (rule "1.IH" [OF refl prod.collapse prod.collapse refl _ w]) (simp add: z)
  qed
qed

lemma sem_of_session:
  "same_session d d' \<Longrightarrow> (sem_of s d' = None) = (sem_of s d = None)"
  by (cases s) (simp_all add: same_session_def)

lemma osSemaphoreWait_open:
  "sem_of s d \<noteq> None \<Longrightarrow> osSemaphoreWait vt s env d \<noteq> Bad_semaphore"
proof (induction vt s env d rule: osSemaphoreWait.induct)
  case (1 vt s d)
  then show ?case
    by (auto simp: acquire_def split: option.splits nat.splits)
next
  case (2 vt s w ws d)
  show ?case
  proof (cases "interrupts vt w d")
    case (Inl f)
    then show ?thesis by simp
  next
    case (Inr d1)
    then have "sem_of s d1 \<noteq> None"
      using "2.prems" sem_of_session [OF interrupts_session [OF Inr]] by simp
    then show ?thesis
      using Inr "2.IH" [OF Inr]
      by (auto simp: acquire_def split: option.splits nat.splits)
  qed
qed


lemma load_numeral:
  "load s i (numeral k) = s ! i # load s (Suc i mod length s) (pred_numeral k)"
  by (simp add: numeral_eq_Suc)

lemma do_read_Returns:
  "do_read vt env d nbyte = Returns r d' env' \<Longrightarrow>
     1 \<le> fst r \<and> fst r \<le> nbyte \<and> length (snd r) = fst r"
proof (induction vt env d nbyte rule: do_read_induct)
  case (step vt env d nbyte)
  show ?case
  proof (cases "0 < fst (popFront nbyte (rx_buf d))")
    case True
    then show ?thesis
      using step.prems by (subst (asm) do_read_unfold) (auto simp: popFront_simps)
  next
    case False
    then have z: "fst (popFront nbyte (rx_buf d)) = 0"
      by simp
    show ?thesis
      using step.IH [OF z] step.prems False
      by (subst (asm) do_read_unfold) (auto split: outcome.splits)
  qed
qed

lemma do_read_open:
  "rx_sem d \<noteq> None \<Longrightarrow> do_read vt env d nbyte \<noteq> Bad_semaphore"
proof (induction vt env d nbyte rule: do_read_induct)
  case (step vt env d nbyte)
  let ?d1 = "d\<lparr>rx_buf := snd (snd (popFront nbyte (rx_buf d)))\<rparr>"
  have o: "osSemaphoreWait vt Rx_sem env ?d1 \<noteq> Bad_semaphore"
    using step.prems by (intro osSemaphoreWait_open) simp
  show ?case
  proof (cases "0 < fst (popFront nbyte (rx_buf d))")
    case True
    then show ?thesis by (subst do_read_unfold) simp
  next
    case False
    then have z: "fst (popFront nbyte (rx_buf d)) = 0"
      by simp
    show ?thesis
    proof (cases "osSemaphoreWait vt Rx_sem env ?d1")
      case (Returns u d2 env2)
      have "rx_sem d2 \<noteq> None"
        using osSemaphoreWait_session [OF Returns] step.prems by (simp add: same_session_def)
      then have "do_read vt env2 d2 nbyte \<noteq> Bad_semaphore"
        by (rule step.IH [OF z Returns])
      then show ?thesis
        using Returns z by (subst do_read_unfold) simp
    next
      case (Blocked d2)
      then show ?thesis using z by (subst do_read_unfold) simp
    next
      case (Aborted f)
      then show ?thesis using z by (subst do_read_unfold) simp
    next
      case Bad_semaphore
      with o show ?thesis by simp
    qed
  qed
qed

section \<open>The handler, spelled out\<close>

lemma advanceBack_simps:
  "fst (advanceBack n b) = min n (capacity b - occupied b)"
  "occupied (snd (advanceBack n b)) = occupied b + min n (capacity b - occupied b)"
  "read_cursor (snd (advanceBack n b)) = read_cursor b"
  "write_cursor (snd (advanceBack n b)) = (write_cursor b + min n (capacity b - occupied b)) mod capacity b"
  "capacity (snd (advanceBack n b)) = capacity b"
  by (simp_all add: advanceBack_def Let_def capacity_def)

lemma retreatBack_simps:
  "occupied (retreatBack b) = occupied b - 1"
  "read_cursor (retreatBack b) = read_cursor b"
  "write_cursor (retreatBack b) = (write_cursor b + capacity b - 1) mod capacity b"
  "capacity (retreatBack b) = capacity b"
  by (simp_all add: retreatBack_def capacity_def)

lemma rx_bits:
  fixes event :: uint32_t
  assumes "event AND a \<noteq> 0"
  shows "event AND (a OR b OR c) \<noteq> 0"
proof -
  have "event AND (a OR b OR c) = (event AND a) OR (event AND (b OR c))"
    by (simp add: bit.conj_disj_distrib)
  with assms show ?thesis
    by (simp add: or_eq_0_iff)
qed


lemma rearm_receive_eq:
  "rearm_receive vt d =
     (let rb = (if fst (getBackContiguousBuffer (rx_buf d)) = 0
                then retreatBack (rx_buf d) else rx_buf d);
          seg = getBackContiguousBuffer rb
      in if fst seg = 0 then Inl Assert_nbyte
         else if fst (receive vt (Ring (snd seg)) (fst seg) (driver d)) \<noteq> ARM_DRIVER_OK
         then Inl Assert_status
         else Inr (d\<lparr>driver := snd (receive vt (Ring (snd seg)) (fst seg) (driver d)),
                    rx_buf := rb, rx_count := 0,
                    trace := trace d @ [Receive (Ring (snd seg)) (fst seg)]\<rparr>))"
  by (simp add: rearm_receive_def driver_call_def Let_def split_def)

lemma receive_events_eq:
  "receive_events vt event d =
     (let delta = get_rx_count vt (driver d) - rx_count d;
          committed = advanceBack (unat delta) (rx_buf d);
          d2 = d\<lparr>rx_count := get_rx_count vt (driver d), rx_buf := snd committed\<rparr>
      in if fst committed \<noteq> unat delta then Inl Assert_count_adjust
         else
           and_also
             (if event AND ARM_USART_EVENT_RECEIVE_COMPLETE \<noteq> 0
              then rearm_receive vt d2 else Inr d2)
             (\<lambda>d3. Inr (if 0 < delta
                        then d3\<lparr>rx_sem := osSemaphoreRelease (rx_sem d3)\<rparr> else d3)))"
  by (auto simp: receive_events_def Let_def split_def)

lemma transmit_complete_eq:
  "transmit_complete vt d =
     (case tx_buf d of
        None \<Rightarrow> Inr (d\<lparr>tx_sem := osSemaphoreRelease (tx_sem d)\<rparr>)
      | Some tb \<Rightarrow>
          let committed = advanceFront (unat (get_tx_count vt (driver d))) tb;
              seg = getFrontContiguousBuffer (snd committed);
              wake = (\<lambda>s. if isBelowLowWaterMark (snd committed) then osSemaphoreRelease s else s)
          in if fst committed \<noteq> unat (get_tx_count vt (driver d)) then Inl Assert_count_adjust
             else if 0 < fst seg then
               if fst (send vt (Ring (snd seg)) (fst seg) (driver d)) \<noteq> ARM_DRIVER_OK
               then Inl Assert_status
               else Inr (d\<lparr>driver := snd (send vt (Ring (snd seg)) (fst seg) (driver d)),
                          tx_sem := wake (tx_sem d),
                          tx_buf := Some (snd committed),
                          trace := trace d @ [Send (Ring (snd seg)) (fst seg)]\<rparr>)
             else Inr (d\<lparr>tx_sem := wake (tx_sem d), tx_buf := Some (snd committed),
                        tx_busy := False\<rparr>))"
  by (auto simp: transmit_complete_def driver_call_def and_also_def Let_def split_def
           split: option.splits)



lemma do_signal_event_receive:
  assumes "event AND (ARM_USART_EVENT_RECEIVE_COMPLETE OR ARM_USART_EVENT_RX_FRAMING_ERROR
                      OR ARM_USART_EVENT_RX_TIMEOUT) \<noteq> 0"
    and "fst (advanceBack (unat (get_rx_count vt (driver d) - rx_count d)) (rx_buf d))
           = unat (get_rx_count vt (driver d) - rx_count d)"
  shows "do_signal_event vt event d =
     (let delta = get_rx_count vt (driver d) - rx_count d;
          committed = advanceBack (unat delta) (rx_buf d);
          wake = (if 0 < delta then osSemaphoreRelease (rx_sem d) else rx_sem d);
          rb = (if fst (getBackContiguousBuffer (snd committed)) = 0
                then retreatBack (snd committed) else snd committed);
          seg = getBackContiguousBuffer rb;
          answer = receive vt (Ring (snd seg)) (fst seg) (driver d);
          transmit_part = (\<lambda>d1. if event AND ARM_USART_EVENT_TX_COMPLETE \<noteq> 0
                                 then transmit_complete vt d1 else Inr d1)
      in if event AND ARM_USART_EVENT_RECEIVE_COMPLETE = 0
         then transmit_part
                (d\<lparr>rx_count := get_rx_count vt (driver d),
                   rx_buf := snd committed, rx_sem := wake\<rparr>)
         else if fst seg = 0 then Inl Assert_nbyte
         else if fst answer \<noteq> ARM_DRIVER_OK then Inl Assert_status
         else transmit_part
                (d\<lparr>driver := snd answer, rx_count := 0, rx_buf := rb,
                   rx_sem := wake,
                   trace := trace d @ [Receive (Ring (snd seg)) (fst seg)]\<rparr>))"
  using assms
  by (cases d)
     (simp add: do_signal_event_def receive_events_eq rearm_receive_eq Let_def and_also_def)

lemma do_signal_event_overrun:
  assumes "event AND (ARM_USART_EVENT_RECEIVE_COMPLETE OR ARM_USART_EVENT_RX_FRAMING_ERROR
                      OR ARM_USART_EVENT_RX_TIMEOUT) \<noteq> 0"
    and "fst (advanceBack (unat (get_rx_count vt (driver d) - rx_count d)) (rx_buf d))
           \<noteq> unat (get_rx_count vt (driver d) - rx_count d)"
  shows "do_signal_event vt event d = Inl Assert_count_adjust"
  using assms by (simp add: do_signal_event_def receive_events_eq Let_def and_also_def)

lemma transmit_part_keeps:
  assumes "(if event AND ARM_USART_EVENT_TX_COMPLETE \<noteq> 0
            then transmit_complete vt d1 else Inr d1) = Inr d'"
  shows "rx_buf d' = rx_buf d1" and "rx_count d' = rx_count d1" and "rx_sem d' = rx_sem d1"
    and "\<exists>rest. trace d' = trace d1 @ rest"
    and "event AND ARM_USART_EVENT_TX_COMPLETE = 0 \<Longrightarrow> d' = d1"
  using assms
  by (auto simp: transmit_complete_eq Let_def split: if_splits option.splits)

lemma invariant_capacity: "invariant b \<Longrightarrow> 0 < capacity b \<and> occupied b \<le> capacity b \<and> write_cursor b < capacity b"
  by (auto simp: invariant_def)

lemma retreat_segment:
  assumes "0 < capacity b" "occupied b \<le> capacity b" "write_cursor b < capacity b"
    and "fst (getBackContiguousBuffer b) = 0"
  shows "getBackContiguousBuffer (retreatBack b) = (1, (write_cursor b + capacity b - 1) mod capacity b)"
proof -
  have full: "occupied b = capacity b"
    using assms by (auto simp: getBackContiguousBuffer_def min_def split: if_splits)
  have "(write_cursor b + capacity b - 1) mod capacity b < capacity b"
    using assms(1) by simp
  then have "1 \<le> capacity b - (write_cursor b + capacity b - 1) mod capacity b"
    by arith
  then show ?thesis
    using full assms(1)
    by (simp add: getBackContiguousBuffer_def retreatBack_simps min_def)
qed

lemma advanceFront_simps:
  "fst (advanceFront n b) = min n (occupied b)"
  "occupied (snd (advanceFront n b)) = occupied b - min n (occupied b)"
  "read_cursor (snd (advanceFront n b)) = (read_cursor b + min n (occupied b)) mod capacity b"
  "write_cursor (snd (advanceFront n b)) = write_cursor b"
  "capacity (snd (advanceFront n b)) = capacity b"
  by (simp_all add: advanceFront_def Let_def capacity_def)

lemma pushBack_simps:
  "fst (pushBack data b) = min (length data) (capacity b - occupied b)"
  "occupied (snd (pushBack data b)) = occupied b + min (length data) (capacity b - occupied b)"
  "capacity (snd (pushBack data b)) = capacity b"
  "read_cursor (snd (pushBack data b)) = read_cursor b"
  by (simp_all add: pushBack_def Let_def capacity_def)


section \<open>The write loop, unfolded\<close>

text \<open>
  The conversion to \<open>ssize_t\<close> is the identity below \<open>2 ^ 31\<close>; the driver count
  \<open>0xFFFFFFFF\<close> comes back as -1.
\<close>

lemma to_ssize_t_small:
  assumes "n < 2 ^ 31"
  shows "to_ssize_t (of_nat n) = int n"
proof -
  have "signed_take_bit 31 (int n) = int n"
    using assms by (intro signed_take_bit_int_eq_self) simp_all
  then show ?thesis
    by (simp add: to_ssize_t_def signed_of_nat)
qed

lemma to_ssize_t_large: "to_ssize_t 0xFFFFFFFF = - 1"
  by (simp add: to_ssize_t_def)

lemma and_then_simps [simp]:
  "and_then (Returns x d env) k = k x d env"
  "and_then (Blocked d) k = Blocked d"
  "and_then (Aborted f) k = Aborted f"
  "and_then Bad_semaphore k = Bad_semaphore"
  by (simp_all add: and_then_def)

lemma do_write_loop_unfold:
  "do_write_loop vt env d buf count =
     (case start_send vt env d of
        Returns r d1 env1 \<Rightarrow>
          (case r of
             Inl e \<Rightarrow> Returns (Inl e) d1 env1
           | Inr u \<Rightarrow>
               if count = length buf then Returns (Inr (to_ssize_t (of_nat (length buf)))) d1 env1
               else
                 (case osSemaphoreWait vt Tx_sem env1 d1 of
                    Returns u d2 env2 \<Rightarrow>
                      if count < length buf then
                        (case tx_buf d2 of
                           None \<Rightarrow> Aborted Null_tx_buf
                         | Some tb \<Rightarrow>
                             do_write_loop vt env2 (snd (admit (drop count buf) tb d2)) buf
                               (count + fst (admit (drop count buf) tb d2)))
                      else do_write_loop vt env2 d2 buf count
                  | Blocked d2 \<Rightarrow> Blocked d2
                  | Aborted f \<Rightarrow> Aborted f
                  | Bad_semaphore \<Rightarrow> Bad_semaphore))
      | Blocked d1 \<Rightarrow> Blocked d1
      | Aborted f \<Rightarrow> Aborted f
      | Bad_semaphore \<Rightarrow> Bad_semaphore)"
  by (subst do_write_loop.simps)
     (simp add: and_then_def split_def Let_def split: outcome.splits sum.splits option.splits)

lemma open_sequence_sems:
  "rx_sem (snd (open_sequence vt os d)) = osSemaphoreCreate (fst os) 0"
  "tx_sem (snd (open_sequence vt os d)) = osSemaphoreCreate (snd os) 0"
  by (simp_all add: open_sequence_def Let_def split_def split: option.splits)

lemma do_vopen_fails:
  assumes "rx_sem d = None" and "fst (do_vopen vt os d) = Inl e"
  shows "e = ENOSR"
    and "doIsOpened (snd (do_vopen vt os d)) = fst os"
    and "\<exists>tr. trace (snd (do_vopen vt os d)) = tr @ [Power ARM_POWER_OFF, Uninitialize]"
  using assms
  by (auto simp: do_vopen_def doIsOpened_def Let_def split_def open_sequence_sems
        osSemaphoreCreate_def split: if_splits)

lemma do_close_not_open: "\<not> doIsOpened (snd (do_close vt d))"
  by (simp add: do_close_def doIsOpened_def Let_def split_def)

lemma do_write_loop_induct [case_names step]:
  assumes "\<And>vt env d buf count.
     (\<And>u d1 env1 d2 env2 tb.
        start_send vt env d = Returns (Inr u) d1 env1 \<Longrightarrow> count \<noteq> length buf \<Longrightarrow>
        osSemaphoreWait vt Tx_sem env1 d1 = Returns () d2 env2 \<Longrightarrow> count < length buf \<Longrightarrow>
        tx_buf d2 = Some tb \<Longrightarrow>
        P vt env2 (snd (admit (drop count buf) tb d2)) buf
          (count + fst (admit (drop count buf) tb d2))) \<Longrightarrow>
     (\<And>u d1 env1 d2 env2.
        start_send vt env d = Returns (Inr u) d1 env1 \<Longrightarrow> count \<noteq> length buf \<Longrightarrow>
        osSemaphoreWait vt Tx_sem env1 d1 = Returns () d2 env2 \<Longrightarrow> \<not> count < length buf \<Longrightarrow>
        P vt env2 d2 buf count) \<Longrightarrow>
     P vt env d buf count"
  shows "P vt env d buf count"
proof (induction vt env d buf count rule: do_write_loop.induct)
  case (1 vt env d buf count)
  show ?case
  proof (rule assms)
    fix u d1 env1 d2 env2 tb
    assume s: "start_send vt env d = Returns (Inr u) d1 env1" and ne: "count \<noteq> length buf"
      and w: "osSemaphoreWait vt Tx_sem env1 d1 = Returns () d2 env2"
      and lt: "count < length buf" and tb: "tx_buf d2 = Some tb"
    show "P vt env2 (snd (admit (drop count buf) tb d2)) buf
            (count + fst (admit (drop count buf) tb d2))"
      by (rule "1.IH"(1) [OF s refl ne w lt tb refl prod.collapse])
  next
    fix u d1 env1 d2 env2
    assume s: "start_send vt env d = Returns (Inr u) d1 env1" and ne: "count \<noteq> length buf"
      and w: "osSemaphoreWait vt Tx_sem env1 d1 = Returns () d2 env2"
      and ge: "\<not> count < length buf"
    show "P vt env2 d2 buf count"
      by (rule "1.IH"(2) [OF s refl ne w ge])
  qed
qed

lemma issue_send_refused:
  assumes "fst (send vt (Ring pbuf) nb (driver d)) \<noteq> ARM_DRIVER_OK"
  shows "issue_send vt pbuf nb env d =
           Returns (Inl EIO)
             (d\<lparr>driver := snd (send vt (Ring pbuf) nb (driver d)),
                trace := trace d @ [Send (Ring pbuf) nb]\<rparr>) env"
  using assms by (simp add: issue_send_def driver_call_def split_def Let_def)

lemma issue_send_Returns:
  assumes "issue_send vt pbuf nb env d = Returns r d' env'"
  shows "same_session d d'
         \<and> (\<forall>e. r = Inl e \<longrightarrow>
               e = EIO \<and> env' = env
               \<and> fst (send vt (Ring pbuf) nb (driver d)) \<noteq> ARM_DRIVER_OK
               \<and> d' = d\<lparr>driver := snd (send vt (Ring pbuf) nb (driver d)),
                        trace := trace d @ [Send (Ring pbuf) nb]\<rparr>)"
proof (cases "fst (send vt (Ring pbuf) nb (driver d)) = ARM_DRIVER_OK")
  case False
  from issue_send_refused [OF False, of env] assms
  have "r = Inl EIO" and "env' = env"
    and "d' = d\<lparr>driver := snd (send vt (Ring pbuf) nb (driver d)),
                 trace := trace d @ [Send (Ring pbuf) nb]\<rparr>"
    by simp_all
  moreover from this have "same_session d d'"
    by (simp add: same_session_def)
  ultimately show ?thesis
    using False by simp
next
  case True
  let ?d1 = "snd (driver_call (Send (Ring pbuf) nb) (send vt (Ring pbuf) nb) d)"
  from True assms obtain u d2 where p: "preempt vt env ?d1 = Returns u d2 env'"
    and d': "d' = d2\<lparr>tx_busy := True\<rparr>" and r: "r = Inr ()"
    by (auto simp: issue_send_def split_def Let_def and_then_Returns)
  have "same_session d ?d1"
    by (simp add: same_session_def)
  moreover have "same_session ?d1 d2"
    using p by (rule preempt_session)
  moreover have "same_session d2 d'"
    by (simp add: d' same_session_def)
  ultimately have "same_session d d'"
    by (blast intro: same_session_trans)
  with r show ?thesis by simp
qed

lemma start_send_Returns:
  assumes "start_send vt env d = Returns r d' env'"
  shows "same_session d d'
         \<and> (\<forall>e. r = Inl e \<longrightarrow>
               e = EIO
               \<and> (\<exists>d3 pbuf nb.
                    same_session d d3
                    \<and> fst (send vt (Ring pbuf) nb (driver d3)) \<noteq> ARM_DRIVER_OK
                    \<and> d' = d3\<lparr>driver := snd (send vt (Ring pbuf) nb (driver d3)),
                              trace := trace d3 @ [Send (Ring pbuf) nb]\<rparr>))"
proof -
  from assms obtain u d1 env1 where p1: "preempt vt env d = Returns u d1 env1"
    and k1: "(if \<not> tx_busy d1 then
         and_then (preempt vt env1 d1) (\<lambda>u d2 env2.
           case tx_buf d2 of
             None \<Rightarrow> Aborted Null_tx_buf
           | Some tb \<Rightarrow>
               let (nb, pbuf) = getFrontContiguousBuffer tb
               in if 0 < nb then
                    and_then (preempt vt env2 d2) (\<lambda>u d3 env3. issue_send vt pbuf nb env3 d3)
                  else Returns (Inr ()) d2 env2)
       else Returns (Inr ()) d1 env1) = Returns r d' env'"
    unfolding start_send_def and_then_Returns by blast
  have s1: "same_session d d1"
    using p1 by (rule preempt_session)
  show ?thesis
  proof (cases "tx_busy d1")
    case True
    with k1 s1 show ?thesis by auto
  next
    case False
    with k1 obtain u2 d2 env2 where p2: "preempt vt env1 d1 = Returns u2 d2 env2"
      and k2: "(case tx_buf d2 of
             None \<Rightarrow> Aborted Null_tx_buf
           | Some tb \<Rightarrow>
               let (nb, pbuf) = getFrontContiguousBuffer tb
               in if 0 < nb then
                    and_then (preempt vt env2 d2) (\<lambda>u d3 env3. issue_send vt pbuf nb env3 d3)
                  else Returns (Inr ()) d2 env2) = Returns r d' env'"
      by (auto simp: and_then_Returns)
    have s2: "same_session d1 d2"
      using p2 by (rule preempt_session)
    from k2 obtain tb where tb: "tx_buf d2 = Some tb"
      by (cases "tx_buf d2") auto
    show ?thesis
    proof (cases "0 < fst (getFrontContiguousBuffer tb)")
      case False
      with k2 tb have "d' = d2" and "r = Inr ()"
        by (simp_all add: split_def Let_def)
      with s1 s2 show ?thesis
        by (auto intro: same_session_trans)
    next
      case True
      let ?pbuf = "snd (getFrontContiguousBuffer tb)"
      let ?nb = "fst (getFrontContiguousBuffer tb)"
      from True k2 tb obtain u3 d3 env3 where p3: "preempt vt env2 d2 = Returns u3 d3 env3"
        and k3: "issue_send vt ?pbuf ?nb env3 d3 = Returns r d' env'"
        by (auto simp: split_def Let_def and_then_Returns)
      have s3: "same_session d2 d3"
        using p3 by (rule preempt_session)
      have s: "same_session d d3"
        using s1 s2 s3 by (blast intro: same_session_trans)
      note i = issue_send_Returns [OF k3]
      from i s have "same_session d d'"
        by (blast intro: same_session_trans)
      moreover have "e = EIO
          \<and> (\<exists>d3 pbuf nb.
                same_session d d3
                \<and> fst (send vt (Ring pbuf) nb (driver d3)) \<noteq> ARM_DRIVER_OK
                \<and> d' = d3\<lparr>driver := snd (send vt (Ring pbuf) nb (driver d3)),
                          trace := trace d3 @ [Send (Ring pbuf) nb]\<rparr>)"
        if "r = Inl e" for e
        using i s that by blast
      ultimately show ?thesis by blast
    qed
  qed
qed

text \<open>
  A refused \<open>send\<close> at a turn of the loop: whatever interrupts are served in the three
  places before it, the loop returns \<open>EIO\<close> from there.
\<close>

lemma start_send_refused:
  assumes "preempt vt env d = Returns () d1 env1" and "\<not> tx_busy d1"
    and "preempt vt env1 d1 = Returns () d2 env2" and "tx_buf d2 = Some tb"
    and "0 < fst (getFrontContiguousBuffer tb)"
    and "preempt vt env2 d2 = Returns () d3 env3"
    and "fst (send vt (Ring (snd (getFrontContiguousBuffer tb)))
               (fst (getFrontContiguousBuffer tb)) (driver d3)) \<noteq> ARM_DRIVER_OK"
  shows "start_send vt env d =
           Returns (Inl EIO)
             (d3\<lparr>driver := snd (send vt (Ring (snd (getFrontContiguousBuffer tb)))
                                   (fst (getFrontContiguousBuffer tb)) (driver d3)),
                 trace := trace d3 @ [Send (Ring (snd (getFrontContiguousBuffer tb)))
                                        (fst (getFrontContiguousBuffer tb))]\<rparr>)
             env3"
  using assms(1-6) issue_send_refused [OF assms(7), of env3]
  by (simp add: start_send_def split_def Let_def)

lemma do_write_loop_refused:
  assumes "start_send vt env d = Returns (Inl e) d' env'"
  shows "do_write_loop vt env d buf count = Returns (Inl e) d' env'"
  by (subst do_write_loop_unfold) (simp add: assms)

lemma do_write_loop_turn:
  assumes "start_send vt env d = Returns (Inr u) d1 env1" and "count < length buf"
    and "osSemaphoreWait vt Tx_sem env1 d1 = Returns () d2 env2" and "tx_buf d2 = Some tb"
  shows "do_write_loop vt env d buf count =
           do_write_loop vt env2 (snd (admit (drop count buf) tb d2)) buf
             (count + fst (admit (drop count buf) tb d2))"
  using assms by (subst do_write_loop_unfold) simp


lemma session_admitted: "same_session d d' \<Longrightarrow> admitted (trace d') = admitted (trace d)"
  by (simp add: same_session_def)

lemma session_tx_buf: "same_session d d' \<Longrightarrow> (tx_buf d' = None) = (tx_buf d = None)"
  by (simp add: same_session_def)

lemma admit_admitted:
  "admitted (trace (snd (admit data tb d))) = admitted (trace d) @ take (fst (admit data tb d)) data"
  by simp

lemma admit_count: "fst (admit data tb d) \<le> length data"
  by (simp add: pushBack_simps)

lemma do_write_loop_Returns:
  assumes "do_write_loop vt env d buf count = Returns r d' env'" and "count \<le> length buf"
  shows "\<exists>k. count \<le> k \<and> k \<le> length buf
           \<and> admitted (trace d') = admitted (trace d) @ take (k - count) (drop count buf)
           \<and> ((r = Inr (to_ssize_t (of_nat (length buf))) \<and> k = length buf)
              \<or> (r = Inl EIO
                  \<and> (\<exists>d3 pbuf nb.
                       fst (send vt (Ring pbuf) nb (driver d3)) \<noteq> ARM_DRIVER_OK
                       \<and> d' = d3\<lparr>driver := snd (send vt (Ring pbuf) nb (driver d3)),
                                 trace := trace d3 @ [Send (Ring pbuf) nb]\<rparr>)))"
  using assms
proof (induction vt env d buf count rule: do_write_loop_induct)
  case (step vt env d buf count)
  from step.prems(1) obtain r1 d1 env1 where
    s: "start_send vt env d = Returns r1 d1 env1"
    by (subst (asm) do_write_loop_unfold) (auto split: outcome.splits)
  note s1 = start_send_Returns [OF s]
  show ?case
  proof (cases r1)
    case (Inl e)
    then have "r = Inl e" and "d' = d1"
      using step.prems(1) s by (subst (asm) do_write_loop_unfold, simp)+
    moreover have "admitted (trace d1) = admitted (trace d)"
      using s1 by (simp add: same_session_def)
    ultimately show ?thesis
      using s1 Inl step.prems(2) by (intro exI [of _ count]) auto
  next
    case (Inr u)
    show ?thesis
    proof (cases "count = length buf")
      case True
      then have "r = Inr (to_ssize_t (of_nat (length buf)))" and "d' = d1"
        using step.prems(1) s Inr by (subst (asm) do_write_loop_unfold, simp)+
      with s1 True show ?thesis
        by (intro exI [of _ count]) (simp add: session_admitted)
    next
      case False
      with step.prems(2) have lt: "count < length buf"
        by simp
      from step.prems(1) s Inr False obtain d2 env2 where
        w: "osSemaphoreWait vt Tx_sem env1 d1 = Returns () d2 env2"
        by (subst (asm) do_write_loop_unfold) (auto split: outcome.splits)
      from step.prems(1) s Inr False w lt obtain tb where tb: "tx_buf d2 = Some tb"
        by (subst (asm) do_write_loop_unfold) (auto split: option.splits)
      let ?n = "fst (admit (drop count buf) tb d2)"
      let ?d3 = "snd (admit (drop count buf) tb d2)"
      have next_run: "do_write_loop vt env2 ?d3 buf (count + ?n) = Returns r d' env'"
        using step.prems(1) s Inr False w lt tb
        by (subst (asm) do_write_loop_unfold) simp
      have n: "?n \<le> length buf - count"
        using admit_count [of "drop count buf" tb d2] by simp
      then have le: "count + ?n \<le> length buf"
        using lt by simp
      have s2: "admitted (trace d2) = admitted (trace d)"
        using s1 osSemaphoreWait_session [OF w]
        by (simp add: same_session_def)
      have a3: "admitted (trace ?d3) = admitted (trace d) @ take ?n (drop count buf)"
        using s2 by simp
      from step.IH(1) [OF s [unfolded Inr] False w lt tb next_run le]
      obtain k where k: "count + ?n \<le> k" "k \<le> length buf"
        "admitted (trace d') = admitted (trace ?d3) @ take (k - (count + ?n)) (drop (count + ?n) buf)"
        and res: "(r = Inr (to_ssize_t (of_nat (length buf))) \<and> k = length buf)
              \<or> (r = Inl EIO
                  \<and> (\<exists>d3 pbuf nb.
                       fst (send vt (Ring pbuf) nb (driver d3)) \<noteq> ARM_DRIVER_OK
                       \<and> d' = d3\<lparr>driver := snd (send vt (Ring pbuf) nb (driver d3)),
                                 trace := trace d3 @ [Send (Ring pbuf) nb]\<rparr>))"
        by blast
      have "take ?n (drop count buf) @ take (k - (count + ?n)) (drop (count + ?n) buf)
              = take (k - count) (drop count buf)"
      proof -
        have "take (k - count) (drop count buf)
                = take (?n + (k - (count + ?n))) (drop count buf)"
          using k(1) by simp
        also have "\<dots> = take ?n (drop count buf) @ take (k - (count + ?n)) (drop ?n (drop count buf))"
          by (rule take_add)
        finally show ?thesis
          by (simp add: add.commute)
      qed
      with k a3 have "admitted (trace d') = admitted (trace d) @ take (k - count) (drop count buf)"
        by simp
      with k res show ?thesis
        by (intro exI [of _ k]) simp
    qed
  qed
qed

lemma do_write_loop_Blocked:
  assumes "do_write_loop vt env d buf count = Blocked d'" and "count \<le> length buf"
  shows "\<exists>k. count \<le> k \<and> k < length buf
           \<and> admitted (trace d') = admitted (trace d) @ take (k - count) (drop count buf)"
  using assms
proof (induction vt env d buf count rule: do_write_loop_induct)
  case (step vt env d buf count)
  have pre: "preempt vt e0 d0 \<noteq> Blocked x" for e0 x and d0 :: "'a Buffered_serial_device"
    by (auto simp: preempt_def split: list.splits sum.splits)
  have ss: "start_send vt env d \<noteq> Blocked x" for x
    by (auto simp: start_send_def issue_send_def and_then_def split_def Let_def pre
             split: outcome.splits option.splits)
  from step.prems(1) ss obtain r1 d1 env1 where
    s: "start_send vt env d = Returns r1 d1 env1"
    by (subst (asm) do_write_loop_unfold) (auto split: outcome.splits)
  note s1 = start_send_Returns [OF s]
  from step.prems(1) s obtain u where Inr: "r1 = Inr u"
    by (subst (asm) do_write_loop_unfold) (auto split: sum.splits)
  from step.prems(1) s Inr have False: "count \<noteq> length buf"
    by (subst (asm) do_write_loop_unfold) (auto split: if_splits)
  with step.prems(2) have lt: "count < length buf"
    by simp
  show ?case
  proof (cases "osSemaphoreWait vt Tx_sem env1 d1")
    case (Blocked d2)
    then have "d' = d2"
      using step.prems(1) s Inr False by (subst (asm) do_write_loop_unfold) simp
    then have "admitted (trace d') = admitted (trace d)"
      using s1 osSemaphoreWait_Blocked_session [OF Blocked] by (simp add: same_session_def)
    with lt show ?thesis
      by (intro exI [of _ count]) simp
  next
    case (Returns u2 d2 env2)
    then have w: "osSemaphoreWait vt Tx_sem env1 d1 = Returns () d2 env2"
      by simp
    from step.prems(1) s Inr False w lt obtain tb where tb: "tx_buf d2 = Some tb"
      by (subst (asm) do_write_loop_unfold) (auto split: option.splits)
    let ?n = "fst (admit (drop count buf) tb d2)"
    let ?d3 = "snd (admit (drop count buf) tb d2)"
    have next_run: "do_write_loop vt env2 ?d3 buf (count + ?n) = Blocked d'"
      using step.prems(1) s Inr False w lt tb
      by (subst (asm) do_write_loop_unfold) simp
    have n: "?n \<le> length buf - count"
      using admit_count [of "drop count buf" tb d2] by simp
    then have le: "count + ?n \<le> length buf"
      using lt by simp
    have s2: "admitted (trace d2) = admitted (trace d)"
      using s1 osSemaphoreWait_session [OF w]
      by (simp add: same_session_def)
    have a3: "admitted (trace ?d3) = admitted (trace d) @ take ?n (drop count buf)"
      using s2 by simp
    from step.IH(1) [OF s [unfolded Inr] False w lt tb next_run le]
    obtain k where k: "count + ?n \<le> k" "k < length buf"
      "admitted (trace d') = admitted (trace ?d3) @ take (k - (count + ?n)) (drop (count + ?n) buf)"
      by blast
    have "take ?n (drop count buf) @ take (k - (count + ?n)) (drop (count + ?n) buf)
            = take (k - count) (drop count buf)"
    proof -
      have "take (k - count) (drop count buf)
              = take (?n + (k - (count + ?n))) (drop count buf)"
        using k(1) by simp
      also have "\<dots> = take ?n (drop count buf) @ take (k - (count + ?n)) (drop ?n (drop count buf))"
        by (rule take_add)
      finally show ?thesis
        by (simp add: add.commute)
    qed
    with k a3 have "admitted (trace d') = admitted (trace d) @ take (k - count) (drop count buf)"
      by simp
    with k show ?thesis
      by (intro exI [of _ k]) simp
  next
    case (Aborted f)
    then show ?thesis
      using step.prems(1) s Inr False by (subst (asm) do_write_loop_unfold) simp
  next
    case Bad_semaphore
    then show ?thesis
      using step.prems(1) s Inr False by (subst (asm) do_write_loop_unfold) simp
  qed
qed


lemma first_admission_simps:
  "fst (first_admission buf tb d) \<le> length buf"
  "admitted (trace (snd (first_admission buf tb d)))
     = admitted (trace d) @ take (fst (first_admission buf tb d)) buf"
  by (simp_all add: first_admission_def pushBack_simps)

text \<open>
  What a buffered write has done when it returns: it returns the caller's count, all the
  caller's bytes admitted in order, or it returns \<open>EIO\<close> from a \<open>send\<close> that the driver
  refused, a prefix of the caller's bytes admitted.
\<close>

lemma do_write_Returns:
  assumes "tx_buf d = Some tb" and "do_write vt env d buf = Returns r d' env'"
  shows "(r = Inr (to_ssize_t (of_nat (length buf)))
          \<and> admitted (trace d') = admitted (trace d) @ buf)
         \<or> (r = Inl EIO
             \<and> (\<exists>k\<le>length buf. admitted (trace d') = admitted (trace d) @ take k buf)
             \<and> (\<exists>d3 pbuf nb.
                  fst (send vt (Ring pbuf) nb (driver d3)) \<noteq> ARM_DRIVER_OK
                  \<and> d' = d3\<lparr>driver := snd (send vt (Ring pbuf) nb (driver d3)),
                            trace := trace d3 @ [Send (Ring pbuf) nb]\<rparr>))"
proof -
  let ?count = "fst (first_admission buf tb d)"
  let ?d1 = "snd (first_admission buf tb d)"
  have run: "do_write vt env d buf = do_write_loop vt env ?d1 buf ?count"
    using assms(1) by (simp add: do_write_def split_def Let_def)
  have le: "?count \<le> length buf"
    by (rule first_admission_simps)
  have a1: "admitted (trace ?d1) = admitted (trace d) @ take ?count buf"
    by (rule first_admission_simps)
  from do_write_loop_Returns [OF assms(2) [unfolded run] le]
  obtain k where k: "?count \<le> k" "k \<le> length buf"
      "admitted (trace d') = admitted (trace ?d1) @ take (k - ?count) (drop ?count buf)"
    and res: "(r = Inr (to_ssize_t (of_nat (length buf))) \<and> k = length buf)
        \<or> (r = Inl EIO
            \<and> (\<exists>d3 pbuf nb.
                 fst (send vt (Ring pbuf) nb (driver d3)) \<noteq> ARM_DRIVER_OK
                 \<and> d' = d3\<lparr>driver := snd (send vt (Ring pbuf) nb (driver d3)),
                           trace := trace d3 @ [Send (Ring pbuf) nb]\<rparr>))"
    by blast
  have "take ?count buf @ take (k - ?count) (drop ?count buf) = take k buf"
    using k(1) by (metis le_add_diff_inverse take_add)
  with k a1 have adm: "admitted (trace d') = admitted (trace d) @ take k buf"
    by simp
  from res show ?thesis
  proof
    assume "r = Inr (to_ssize_t (of_nat (length buf))) \<and> k = length buf"
    with adm show ?thesis by simp
  next
    assume "r = Inl EIO
        \<and> (\<exists>d3 pbuf nb.
             fst (send vt (Ring pbuf) nb (driver d3)) \<noteq> ARM_DRIVER_OK
             \<and> d' = d3\<lparr>driver := snd (send vt (Ring pbuf) nb (driver d3)),
                       trace := trace d3 @ [Send (Ring pbuf) nb]\<rparr>)"
    with adm k(2) show ?thesis by blast
  qed
qed

section \<open>A writer that nothing wakes\<close>

text \<open>
  Only the transmit part of the handler clears \<open>tx_busy_\<close> and releases the tx
  semaphore. So a writer that finds \<open>tx_busy_\<close> set and no token, with bytes still to
  admit, never returns unless a transmit-complete interrupt comes; and none comes when
  the driver has nothing in flight.
\<close>

lemma do_signal_event_rx_only:
  assumes "event AND ARM_USART_EVENT_TX_COMPLETE = 0" and "do_signal_event vt event d = Inr d'"
  shows "tx_busy d' = tx_busy d \<and> tx_sem d' = tx_sem d"
  using assms
  by (auto simp: do_signal_event_def receive_events_eq rearm_receive_eq and_also_Inr Let_def
           split: if_splits)

lemma interrupts_rx_only:
  assumes "list_all (\<lambda>i. snd i AND ARM_USART_EVENT_TX_COMPLETE = 0) w"
    and "interrupts vt w d = Inr d'"
  shows "tx_busy d' = tx_busy d \<and> tx_sem d' = tx_sem d"
  using assms
proof (induction w arbitrary: d)
  case Nil
  then show ?case by simp
next
  case (Cons i w)
  from Cons.prems(2) obtain d1 where
    a: "do_signal_event vt (snd i) (d\<lparr>driver := fst i (driver d)\<rparr>) = Inr d1"
    and b: "interrupts vt w d1 = Inr d'"
    by (auto simp: and_also_Inr)
  from Cons.prems(1) have "snd i AND ARM_USART_EVENT_TX_COMPLETE = 0"
    and w: "list_all (\<lambda>i. snd i AND ARM_USART_EVENT_TX_COMPLETE = 0) w"
    by simp_all
  from do_signal_event_rx_only [OF this(1) a] Cons.IH [OF w b] show ?case
    by simp
qed

lemma preempt_rx_only:
  assumes "rx_only env" and "preempt vt env d = Returns u d' env'"
  shows "tx_busy d' = tx_busy d \<and> tx_sem d' = tx_sem d \<and> rx_only env'"
  using assms
  by (auto simp: rx_only_def dest!: preempt_Returns interrupts_rx_only)

lemma osSemaphoreWait_rx_only:
  assumes "rx_only env" and "tx_sem d = Some 0"
  shows "osSemaphoreWait vt Tx_sem env d \<noteq> Returns u d' env'"
  using assms
proof (induction env arbitrary: d)
  case Nil
  then show ?case by (simp add: acquire_def)
next
  case (Cons w ws)
  show ?case
  proof (cases "interrupts vt w d")
    case (Inl f)
    then show ?thesis by simp
  next
    case (Inr d1)
    from Cons.prems have "list_all (\<lambda>i. snd i AND ARM_USART_EVENT_TX_COMPLETE = 0) w"
      and ws: "rx_only ws"
      by (simp_all add: rx_only_def)
    from interrupts_rx_only [OF this(1) Inr] Cons.prems(2) have t: "tx_sem d1 = Some 0"
      by simp
    from Cons.IH [OF ws t] Inr t show ?thesis
      by (simp add: acquire_def)
  qed
qed

lemma do_write_loop_stuck:
  assumes "rx_only env" and "tx_busy d" and "tx_sem d = Some 0" and "count \<noteq> length buf"
  shows "do_write_loop vt env d buf count \<noteq> Returns r d' env'"
proof (cases "preempt vt env d")
  case (Returns u d1 env1)
  from preempt_rx_only [OF assms(1) Returns] assms(2,3)
  have d1: "tx_busy d1" "tx_sem d1 = Some 0" "rx_only env1"
    by simp_all
  have s: "start_send vt env d = Returns (Inr ()) d1 env1"
    using Returns d1(1) by (simp add: start_send_def)
  have "osSemaphoreWait vt Tx_sem env1 d1 \<noteq> Returns u2 d2 env2" for u2 d2 env2
    using d1(3,2) by (rule osSemaphoreWait_rx_only)
  then show ?thesis
    using s assms(4)
    by (subst do_write_loop_unfold) (auto split: outcome.splits)
next
  case (Blocked d1)
  then show ?thesis
    by (subst do_write_loop_unfold) (simp add: start_send_def)
next
  case (Aborted f)
  then show ?thesis
    by (subst do_write_loop_unfold) (simp add: start_send_def)
next
  case Bad_semaphore
  then show ?thesis
    by (subst do_write_loop_unfold) (simp add: start_send_def)
qed

section \<open>The buffer operations keep the buffer well formed\<close>

text \<open>
  The handler's properties below are stated for a well-formed receive buffer. Every
  operation of the buffer that the device and the handler use takes a well-formed
  buffer to a well-formed one, so the condition holds throughout a session that starts
  from a cleared buffer.
\<close>

lemma cursor_back:
  fixes r :: nat
  assumes "(r + n) mod c = w"
  shows "(r + (n + k)) mod c = (w + k) mod c"
proof -
  have "(w + k) mod c = ((r + n) mod c + k) mod c"
    using assms by simp
  also have "\<dots> = (r + n + k) mod c"
    by (rule mod_add_left_eq)
  finally show ?thesis
    by (simp add: add.assoc)
qed

lemma cursor_front:
  fixes r :: nat
  assumes "k \<le> n"
  shows "((r + k) mod c + n - k) mod c = (r + n) mod c"
proof -
  have "(r + k) mod c + n - k = (r + k) mod c + (n - k)"
    using assms by simp
  moreover have "((r + k) mod c + (n - k)) mod c = (r + k + (n - k)) mod c"
    by (rule mod_add_left_eq)
  moreover have "r + k + (n - k) = r + n"
    using assms by simp
  ultimately show ?thesis by simp
qed

lemma invariant_clear: "invariant b \<Longrightarrow> invariant (clear b)"
  by (auto simp: invariant_def clear_def capacity_def)

lemma invariant_advanceBack:
  assumes "invariant b"
  shows "invariant (snd (advanceBack n b))"
proof -
  from assms have "0 < length (storage b)"
    by (auto simp: invariant_def capacity_def)
  with assms show ?thesis
    by (auto simp: invariant_def advanceBack_def Let_def capacity_def cursor_back)
qed

lemma invariant_pushBack:
  assumes "invariant b"
  shows "invariant (snd (pushBack data b))"
proof -
  from assms have "0 < length (storage b)"
    by (auto simp: invariant_def capacity_def)
  with assms show ?thesis
    by (auto simp: invariant_def pushBack_def Let_def capacity_def cursor_back)
qed

lemma invariant_advanceFront:
  assumes "invariant b"
  shows "invariant (snd (advanceFront n b))"
proof -
  from assms have "0 < length (storage b)"
    by (auto simp: invariant_def capacity_def)
  with assms show ?thesis
    by (auto simp: invariant_def advanceFront_def Let_def capacity_def cursor_front)
qed

lemma invariant_popFront:
  assumes "invariant b"
  shows "invariant (snd (snd (popFront n b)))"
proof -
  from assms have "0 < length (storage b)"
    by (auto simp: invariant_def capacity_def)
  with assms show ?thesis
    by (auto simp: invariant_def popFront_def Let_def capacity_def cursor_front)
qed

lemma invariant_retreatBack:
  assumes "invariant b" and "0 < occupied b"
  shows "invariant (retreatBack b)"
proof -
  let ?C = "length (storage b)"
  from assms(1) have C: "0 < ?C" and w: "(read_cursor b + occupied b) mod ?C = write_cursor b"
    by (auto simp: invariant_def capacity_def)
  have "(read_cursor b + (occupied b - 1 + ?C)) mod ?C = (read_cursor b + (occupied b - 1)) mod ?C"
    by (simp add: add.assoc [symmetric])
  moreover have "occupied b - 1 + ?C = occupied b + (?C - 1)"
    using assms(2) C by arith
  moreover have "(read_cursor b + (occupied b + (?C - 1))) mod ?C = (write_cursor b + (?C - 1)) mod ?C"
    using w by (rule cursor_back)
  moreover have "write_cursor b + (?C - 1) = write_cursor b + ?C - 1"
    using C by arith
  ultimately have "(read_cursor b + (occupied b - 1)) mod ?C = (write_cursor b + ?C - 1) mod ?C"
    by simp
  then show ?thesis
    using assms C by (auto simp: invariant_def retreatBack_def capacity_def)
qed


section \<open>Evaluation on the sample devices\<close>

lemmas handler_defs =
  do_signal_event_def receive_events_eq rearm_receive_eq transmit_complete_eq and_also_def
  advanceBack_def advanceFront_def retreatBack_def getBackContiguousBuffer_def
  getFrontContiguousBuffer_def isBelowLowWaterMark_def isBelowHighWaterMark_def capacity_def
  osSemaphoreRelease_def Let_def
  ARM_USART_EVENT_RECEIVE_COMPLETE_def ARM_USART_EVENT_TX_COMPLETE_def
  ARM_USART_EVENT_RX_TIMEOUT_def ARM_USART_EVENT_RX_FRAMING_ERROR_def
  ARM_DRIVER_OK_def ARM_DRIVER_ERROR_def

lemmas test_defs =
  test_driver_def ring_def closed_device_def open_device_def reader_device_def received_def

lemmas sample_defs = test_defs overrun_device_def overrun_after_def

lemmas write_defs =
  do_write_def first_admission_def admit_def pushBack_def start_send_def issue_send_def
  preempt_def driver_call_def acquire_def split_def


section \<open>The claims about reading\<close>

text \<open>
  C1. A call \<open>read(buf, n)\<close> never returns 0: whatever \<open>do_read\<close> returns is a count of at
  least 1 and at most n, with that many bytes. When the pop under the critical section
  yields a nonzero count, \<open>do_read\<close> returns it at once, without waiting; when it yields
  zero, \<open>do_read\<close> waits on the rx semaphore and starts again.
\<close>

theorem do_read_returns_nonzero:
  "(\<forall>r d' env'. do_read vt env d nbyte = Returns r d' env' \<longrightarrow>
       1 \<le> fst r \<and> fst r \<le> nbyte \<and> length (snd r) = fst r)
   \<and> (0 < fst (popFront nbyte (rx_buf d)) \<longrightarrow>
        do_read vt env d nbyte =
          Returns (fst (popFront nbyte (rx_buf d)), fst (snd (popFront nbyte (rx_buf d))))
            (d\<lparr>rx_buf := snd (snd (popFront nbyte (rx_buf d)))\<rparr>) env)
   \<and> (fst (popFront nbyte (rx_buf d)) = 0 \<longrightarrow>
        do_read vt env d nbyte =
          and_then
            (osSemaphoreWait vt Rx_sem env (d\<lparr>rx_buf := snd (snd (popFront nbyte (rx_buf d)))\<rparr>))
            (\<lambda>u d2 env2. do_read vt env2 d2 nbyte))"
proof (intro conjI)
  show "\<forall>r d' env'. do_read vt env d nbyte = Returns r d' env' \<longrightarrow>
          1 \<le> fst r \<and> fst r \<le> nbyte \<and> length (snd r) = fst r"
    using do_read_Returns by blast
next
  show "0 < fst (popFront nbyte (rx_buf d)) \<longrightarrow>
        do_read vt env d nbyte =
          Returns (fst (popFront nbyte (rx_buf d)), fst (snd (popFront nbyte (rx_buf d))))
            (d\<lparr>rx_buf := snd (snd (popFront nbyte (rx_buf d)))\<rparr>) env"
    by (subst do_read_unfold) simp
next
  show "fst (popFront nbyte (rx_buf d)) = 0 \<longrightarrow>
        do_read vt env d nbyte =
          and_then
            (osSemaphoreWait vt Rx_sem env (d\<lparr>rx_buf := snd (snd (popFront nbyte (rx_buf d)))\<rparr>))
            (\<lambda>u d2 env2. do_read vt env2 d2 nbyte)"
    by (subst do_read.simps) (simp add: split_def Let_def)
qed

text \<open>
  On the open device that holds the bytes \<open>A\<close>, \<open>B\<close>, a read of up to 3 bytes returns
  the two at once. On the open device with an empty buffer, the same read waits, and
  returns the two bytes that an rx-timeout interrupt then commits.
\<close>

theorem do_read_returns_nonzero_witness:
  "(0::nat) < 3 \<and> rx_sem reader_device \<noteq> None
   \<and> (\<exists>d'. do_read (test_driver 0 0) [] reader_device 3 = Returns (2, [0x41, 0x42]) d' []
          \<and> occupied (rx_buf d') = 0)
   \<and> (\<exists>d'. do_read (test_driver 0 0) [[received 2 ARM_USART_EVENT_RX_TIMEOUT]] open_device 3
            = Returns (2, [0, 0]) d' []
          \<and> rx_sem d' = Some 0)"
proof -
  note c1 = do_read_returns_nonzero [of "test_driver 0 0" "[]" reader_device 3]
  have p: "0 < fst (popFront 3 (rx_buf reader_device))"
    by (simp add: popFront_simps test_defs)
  have run: "do_read (test_driver 0 0) [] reader_device 3 =
      Returns (fst (popFront 3 (rx_buf reader_device)), fst (snd (popFront 3 (rx_buf reader_device))))
        (reader_device\<lparr>rx_buf := snd (snd (popFront 3 (rx_buf reader_device)))\<rparr>) []"
    using c1 p by blast
  have a: "\<exists>d'. do_read (test_driver 0 0) [] reader_device 3 = Returns (2, [0x41, 0x42]) d' []
          \<and> occupied (rx_buf d') = 0"
    unfolding run by (simp add: popFront_def Let_def test_defs load_numeral)
  have b: "\<exists>d'. do_read (test_driver 0 0) [[received 2 ARM_USART_EVENT_RX_TIMEOUT]] open_device 3
            = Returns (2, [0, 0]) d' [] \<and> rx_sem d' = Some 0"
    by (simp add: do_read_unfold popFront_def acquire_def handler_defs test_defs load_numeral)
  have "rx_sem reader_device \<noteq> None"
    by (simp add: test_defs)
  with a b show ?thesis by simp
qed

text \<open>
  C10. A call \<open>read(buf, 0)\<close> never returns, whatever the rx buffer holds and whatever
  interrupts come: every pop of 0 bytes yields the count 0, so the loop only waits and
  starts again. On an open device the call ends blocked on the rx semaphore, unless an
  assertion of the interrupt handler aborts the program.
\<close>

theorem do_read_zero_never_returns:
  "(\<forall>r d' env'. do_read vt env d 0 \<noteq> Returns r d' env')
   \<and> (rx_sem d \<noteq> None \<longrightarrow>
        (\<exists>d'. do_read vt env d 0 = Blocked d') \<or> (\<exists>f. do_read vt env d 0 = Aborted f))"
proof (intro conjI impI)
  show never: "\<forall>r d' env'. do_read vt env d 0 \<noteq> Returns r d' env'"
    using do_read_Returns [of vt env d 0] by fastforce
  assume "rx_sem d \<noteq> None"
  then have "do_read vt env d 0 \<noteq> Bad_semaphore"
    by (rule do_read_open)
  with never show "(\<exists>d'. do_read vt env d 0 = Blocked d') \<or> (\<exists>f. do_read vt env d 0 = Aborted f)"
    by (cases "do_read vt env d 0") auto
qed

text \<open>
  The open device holds two bytes and two interrupts bring two more: the read of 0 bytes
  uses up the two tokens and stays blocked, the four bytes still in the buffer.
\<close>

theorem do_read_zero_never_returns_witness:
  "rx_sem reader_device \<noteq> None \<and> occupied (rx_buf reader_device) = 2
   \<and> (\<forall>r d' env'.
         do_read (test_driver 0 0)
           [[received 1 ARM_USART_EVENT_RX_TIMEOUT], [received 1 ARM_USART_EVENT_RX_TIMEOUT]]
           reader_device 0 \<noteq> Returns r d' env')
   \<and> (\<exists>d'. do_read (test_driver 0 0)
              [[received 1 ARM_USART_EVENT_RX_TIMEOUT], [received 1 ARM_USART_EVENT_RX_TIMEOUT]]
              reader_device 0 = Blocked d'
          \<and> occupied (rx_buf d') = 4 \<and> rx_sem d' = Some 0)"
proof -
  note c10 = do_read_zero_never_returns [of "test_driver 0 0"
    "[[received 1 ARM_USART_EVENT_RX_TIMEOUT], [received 1 ARM_USART_EVENT_RX_TIMEOUT]]"
    reader_device]
  have "\<exists>d'. do_read (test_driver 0 0)
              [[received 1 ARM_USART_EVENT_RX_TIMEOUT], [received 1 ARM_USART_EVENT_RX_TIMEOUT]]
              reader_device 0 = Blocked d'
          \<and> occupied (rx_buf d') = 4 \<and> rx_sem d' = Some 0"
    by (simp add: do_read_unfold popFront_def acquire_def handler_defs test_defs load_numeral)
  moreover have "rx_sem reader_device \<noteq> None \<and> occupied (rx_buf reader_device) = 2"
    by (simp add: test_defs)
  ultimately show ?thesis
    using c10 by blast
qed

section \<open>The claims about the interrupt handler\<close>

text \<open>
  C3. On an event with any of the bits receive-complete, framing-error and rx-timeout,
  the handler takes as count the difference (modulo \<open>2^32\<close>) of the driver's rx counter
  and \<open>rx_count_\<close>, and commits it with \<open>advanceBack\<close>, which commits the count or, if
  that is less, the free space. When \<open>advanceBack\<close> commits another number than the
  count, the assertion aborts the program. When it commits the count, the rx buffer
  holds that many bytes more and the handler goes on. Without the receive-complete bit
  the receive part completes: \<open>rx_count_\<close> is the driver's counter, the rx buffer is the
  committed one, and the rx semaphore has been released if the count is positive and
  left alone if it is zero. With the receive-complete bit the handler first issues the
  receive again, for the back-contiguous segment of the committed buffer (after a
  \<open>retreatBack\<close> if that segment is empty): an empty segment or a receive that the driver
  refuses is an assertion failure, and otherwise the receive part completes with the
  driver re-armed, \<open>rx_count_\<close> zero and the rx semaphore released or left alone in the
  same way. The transmit part follows if the event has the transmit-complete bit too; it
  changes neither the rx buffer nor \<open>rx_count_\<close> nor the rx semaphore.
\<close>

theorem receive_event_commits_delta:
  assumes "event AND (ARM_USART_EVENT_RECEIVE_COMPLETE OR ARM_USART_EVENT_RX_FRAMING_ERROR
                      OR ARM_USART_EVENT_RX_TIMEOUT) \<noteq> 0"
  shows "let delta = get_rx_count vt (driver d) - rx_count d;
             committed = advanceBack (unat delta) (rx_buf d);
             wake = (if 0 < delta then osSemaphoreRelease (rx_sem d) else rx_sem d);
             rb = (if fst (getBackContiguousBuffer (snd committed)) = 0
                   then retreatBack (snd committed) else snd committed);
             seg = getBackContiguousBuffer rb;
             answer = receive vt (Ring (snd seg)) (fst seg) (driver d);
             transmit_part = (\<lambda>d1. if event AND ARM_USART_EVENT_TX_COMPLETE \<noteq> 0
                                    then transmit_complete vt d1 else Inr d1)
         in fst committed = min (unat delta) (capacity (rx_buf d) - occupied (rx_buf d))
            \<and> (fst committed \<noteq> unat delta \<longrightarrow>
                  do_signal_event vt event d = Inl Assert_count_adjust)
            \<and> (fst committed = unat delta \<longrightarrow>
                  occupied (snd committed) = occupied (rx_buf d) + unat delta
                  \<and> do_signal_event vt event d =
                      (if event AND ARM_USART_EVENT_RECEIVE_COMPLETE = 0
                       then transmit_part
                              (d\<lparr>rx_count := get_rx_count vt (driver d),
                                 rx_buf := snd committed, rx_sem := wake\<rparr>)
                       else if fst seg = 0 then Inl Assert_nbyte
                       else if fst answer \<noteq> ARM_DRIVER_OK then Inl Assert_status
                       else transmit_part
                              (d\<lparr>driver := snd answer, rx_count := 0, rx_buf := rb,
                                 rx_sem := wake,
                                 trace := trace d @ [Receive (Ring (snd seg)) (fst seg)]\<rparr>)))
            \<and> (\<forall>d'. do_signal_event vt event d = Inr d' \<longrightarrow>
                  fst committed = unat delta
                  \<and> occupied (snd committed) = occupied (rx_buf d) + unat delta
                  \<and> rx_buf d' =
                      (if event AND ARM_USART_EVENT_RECEIVE_COMPLETE \<noteq> 0
                          \<and> fst (getBackContiguousBuffer (snd committed)) = 0
                       then retreatBack (snd committed) else snd committed)
                  \<and> rx_count d' =
                      (if event AND ARM_USART_EVENT_RECEIVE_COMPLETE \<noteq> 0 then 0
                       else get_rx_count vt (driver d))
                  \<and> rx_sem d' =
                      (if 0 < delta then osSemaphoreRelease (rx_sem d) else rx_sem d))"
proof -
  let ?delta = "get_rx_count vt (driver d) - rx_count d"
  let ?committed = "advanceBack (unat ?delta) (rx_buf d)"
  let ?wake = "if 0 < ?delta then osSemaphoreRelease (rx_sem d) else rx_sem d"
  let ?rb = "if fst (getBackContiguousBuffer (snd ?committed)) = 0
             then retreatBack (snd ?committed) else snd ?committed"
  let ?seg = "getBackContiguousBuffer ?rb"
  let ?answer = "receive vt (Ring (snd ?seg)) (fst ?seg) (driver d)"
  let ?transmit_part = "\<lambda>d1. if event AND ARM_USART_EVENT_TX_COMPLETE \<noteq> 0
                             then transmit_complete vt d1 else Inr d1"
  have amount: "fst ?committed = min (unat ?delta) (capacity (rx_buf d) - occupied (rx_buf d))"
    by (simp add: advanceBack_simps)
  have abort: "do_signal_event vt event d = Inl Assert_count_adjust"
    if "fst ?committed \<noteq> unat ?delta"
    using assms that by (rule do_signal_event_overrun)
  have occ: "occupied (snd ?committed) = occupied (rx_buf d) + unat ?delta"
    if "fst ?committed = unat ?delta"
    using that by (simp add: advanceBack_simps)
  have run: "do_signal_event vt event d =
      (if event AND ARM_USART_EVENT_RECEIVE_COMPLETE = 0
       then ?transmit_part
              (d\<lparr>rx_count := get_rx_count vt (driver d),
                 rx_buf := snd ?committed, rx_sem := ?wake\<rparr>)
       else if fst ?seg = 0 then Inl Assert_nbyte
       else if fst ?answer \<noteq> ARM_DRIVER_OK then Inl Assert_status
       else ?transmit_part
              (d\<lparr>driver := snd ?answer, rx_count := 0, rx_buf := ?rb,
                 rx_sem := ?wake,
                 trace := trace d @ [Receive (Ring (snd ?seg)) (fst ?seg)]\<rparr>))"
    if "fst ?committed = unat ?delta"
    using do_signal_event_receive [OF assms that] by (simp add: Let_def)
  have keep: "rx_buf d' = rx_buf d1 \<and> rx_count d' = rx_count d1 \<and> rx_sem d' = rx_sem d1"
    if "?transmit_part d1 = Inr d'" for d1 d'
    using transmit_part_keeps(1-3) [OF that] by simp
  have ok: "fst ?committed = unat ?delta
      \<and> occupied (snd ?committed) = occupied (rx_buf d) + unat ?delta
      \<and> rx_buf d' =
          (if event AND ARM_USART_EVENT_RECEIVE_COMPLETE \<noteq> 0
              \<and> fst (getBackContiguousBuffer (snd ?committed)) = 0
           then retreatBack (snd ?committed) else snd ?committed)
      \<and> rx_count d' =
          (if event AND ARM_USART_EVENT_RECEIVE_COMPLETE \<noteq> 0 then 0
           else get_rx_count vt (driver d))
      \<and> rx_sem d' = (if 0 < ?delta then osSemaphoreRelease (rx_sem d) else rx_sem d)"
    if fin: "do_signal_event vt event d = Inr d'" for d'
  proof -
    have c: "fst ?committed = unat ?delta"
      using fin abort by fastforce
    show ?thesis
    proof (cases "event AND ARM_USART_EVENT_RECEIVE_COMPLETE = 0")
      case True
      with fin run [OF c] have
        "?transmit_part (d\<lparr>rx_count := get_rx_count vt (driver d),
                           rx_buf := snd ?committed, rx_sem := ?wake\<rparr>) = Inr d'"
        by simp
      from keep [OF this] True c occ [OF c] show ?thesis
        by simp
    next
      case False
      with fin run [OF c] have
        "?transmit_part (d\<lparr>driver := snd ?answer, rx_count := 0, rx_buf := ?rb,
                           rx_sem := ?wake,
                           trace := trace d @ [Receive (Ring (snd ?seg)) (fst ?seg)]\<rparr>) = Inr d'"
        by (simp split: if_splits)
      from keep [OF this] False c occ [OF c] show ?thesis
        by simp
    qed
  qed
  show ?thesis
    unfolding Let_def using amount abort occ run ok by blast
qed

text \<open>
  An rx-timeout on the open device, the driver having counted 2 bytes: the handler
  completes, the buffer holds 2 bytes, \<open>rx_count_\<close> is 2 and the rx semaphore has one
  token. The same event with nothing counted changes nothing and releases nothing. With
  5 bytes counted, one more than the buffer takes, the commit assertion fails.
\<close>

theorem receive_event_commits_delta_witness:
  "ARM_USART_EVENT_RX_TIMEOUT AND (ARM_USART_EVENT_RECEIVE_COMPLETE OR ARM_USART_EVENT_RX_FRAMING_ERROR
                      OR ARM_USART_EVENT_RX_TIMEOUT) \<noteq> 0
   \<and> fst (advanceBack 2 (rx_buf open_device)) = 2
   \<and> (\<exists>d'. do_signal_event (test_driver 0 0) ARM_USART_EVENT_RX_TIMEOUT
              (open_device\<lparr>driver := (2, 0)\<rparr>) = Inr d'
          \<and> occupied (rx_buf d') = 2 \<and> rx_count d' = 2 \<and> rx_sem d' = Some 1)
   \<and> do_signal_event (test_driver 0 0) ARM_USART_EVENT_RX_TIMEOUT open_device = Inr open_device
   \<and> do_signal_event (test_driver 0 0) ARM_USART_EVENT_RX_TIMEOUT
        (open_device\<lparr>driver := (5, 0)\<rparr>) = Inl Assert_count_adjust"
proof -
  have h: "ARM_USART_EVENT_RX_TIMEOUT AND (ARM_USART_EVENT_RECEIVE_COMPLETE
             OR ARM_USART_EVENT_RX_FRAMING_ERROR OR ARM_USART_EVENT_RX_TIMEOUT) \<noteq> 0"
    by (simp add: handler_defs)
  note c3 = receive_event_commits_delta [OF h, of "test_driver 0 0", unfolded Let_def]
  have two: "fst (advanceBack 2 (rx_buf open_device)) = 2"
    by (simp add: handler_defs test_defs)
  have a: "\<exists>d'. do_signal_event (test_driver 0 0) ARM_USART_EVENT_RX_TIMEOUT
              (open_device\<lparr>driver := (2, 0)\<rparr>) = Inr d'
          \<and> occupied (rx_buf d') = 2 \<and> rx_count d' = 2 \<and> rx_sem d' = Some 1"
    using c3 [of "open_device\<lparr>driver := (2, 0)\<rparr>", THEN conjunct2, THEN conjunct2,
              THEN conjunct1]
    by (simp add: handler_defs test_defs)
  have b: "do_signal_event (test_driver 0 0) ARM_USART_EVENT_RX_TIMEOUT open_device
             = Inr open_device"
    using c3 [of open_device, THEN conjunct2, THEN conjunct2, THEN conjunct1]
    by (simp add: handler_defs test_defs)
  have c: "do_signal_event (test_driver 0 0) ARM_USART_EVENT_RX_TIMEOUT
             (open_device\<lparr>driver := (5, 0)\<rparr>) = Inl Assert_count_adjust"
    using c3 [of "open_device\<lparr>driver := (5, 0)\<rparr>", THEN conjunct2, THEN conjunct1]
    by (simp add: handler_defs test_defs)
  from h two a b c show ?thesis by blast
qed

text \<open>
  C4, as amended. On an event with the receive-complete bit, the rx buffer satisfying
  its invariant, the assertion \<open>nbyte > 0\<close> never fails: the segment the handler ends
  with has a nonzero length. If the back-contiguous segment after the commit is empty,
  the handler applies \<open>retreatBack\<close>, which un-commits the byte committed last: the write
  cursor steps back one cell, the read cursor and with it the oldest unread byte stay,
  and the segment fetched again is that one cell. When the count does not fit the free
  space, the commit assertion aborts the program before that. When it fits, the handler
  issues the receive for this segment on the driver: if the driver refuses it, the
  assertion \<open>status == ARM_DRIVER_OK\<close> aborts the program; if the driver accepts it, the
  handler completes the receive part in the state where the driver has taken the
  receive, the rx buffer is the one described, \<open>rx_count_\<close> is zero and the rx semaphore
  is released if the count is positive, and that state is what the handler returns
  (after the transmit part, if the event has the transmit-complete bit too).
\<close>

theorem receive_complete_rearms:
  assumes "event AND ARM_USART_EVENT_RECEIVE_COMPLETE \<noteq> 0" and "invariant (rx_buf d)"
  shows "let delta = get_rx_count vt (driver d) - rx_count d;
             committed = snd (advanceBack (unat delta) (rx_buf d));
             full = (fst (getBackContiguousBuffer committed) = 0);
             rb = (if full then retreatBack committed else committed);
             seg = getBackContiguousBuffer rb;
             answer = receive vt (Ring (snd seg)) (fst seg) (driver d);
             rearmed = d\<lparr>driver := snd answer, rx_count := 0, rx_buf := rb,
                         rx_sem := (if 0 < delta then osSemaphoreRelease (rx_sem d)
                                    else rx_sem d),
                         trace := trace d @ [Receive (Ring (snd seg)) (fst seg)]\<rparr>
         in do_signal_event vt event d \<noteq> Inl Assert_nbyte
            \<and> 0 < fst seg
            \<and> (full \<longrightarrow>
                  seg = (1, (write_cursor committed + capacity committed - 1) mod capacity committed)
                  \<and> occupied rb = occupied committed - 1
                  \<and> read_cursor rb = read_cursor (rx_buf d))
            \<and> (capacity (rx_buf d) - occupied (rx_buf d) < unat delta \<longrightarrow>
                  do_signal_event vt event d = Inl Assert_count_adjust)
            \<and> (unat delta \<le> capacity (rx_buf d) - occupied (rx_buf d) \<longrightarrow>
                  do_signal_event vt event d =
                    (if fst answer \<noteq> ARM_DRIVER_OK then Inl Assert_status
                     else if event AND ARM_USART_EVENT_TX_COMPLETE \<noteq> 0
                     then transmit_complete vt rearmed
                     else Inr rearmed))
            \<and> (\<forall>d'. do_signal_event vt event d = Inr d' \<longrightarrow>
                  rx_buf d' = rb \<and> rx_count d' = 0
                  \<and> (event AND ARM_USART_EVENT_TX_COMPLETE = 0 \<longrightarrow> d' = rearmed)
                  \<and> (\<exists>rest. trace d' = trace d @ Receive (Ring (snd seg)) (fst seg) # rest))"
proof -
  let ?delta = "get_rx_count vt (driver d) - rx_count d"
  let ?committed = "snd (advanceBack (unat ?delta) (rx_buf d))"
  let ?full = "fst (getBackContiguousBuffer ?committed) = 0"
  let ?rb = "if ?full then retreatBack ?committed else ?committed"
  let ?seg = "getBackContiguousBuffer ?rb"
  let ?answer = "receive vt (Ring (snd ?seg)) (fst ?seg) (driver d)"
  let ?rearmed = "d\<lparr>driver := snd ?answer, rx_count := 0, rx_buf := ?rb,
                     rx_sem := (if 0 < ?delta then osSemaphoreRelease (rx_sem d) else rx_sem d),
                     trace := trace d @ [Receive (Ring (snd ?seg)) (fst ?seg)]\<rparr>"
  from assms(2) have inv: "0 < capacity (rx_buf d)" "occupied (rx_buf d) \<le> capacity (rx_buf d)"
    by (auto dest: invariant_capacity)
  have c: "0 < capacity ?committed" "occupied ?committed \<le> capacity ?committed"
      "write_cursor ?committed < capacity ?committed"
    using inv by (simp_all add: advanceBack_simps)
  have seg_full: "?seg = (1, (write_cursor ?committed + capacity ?committed - 1) mod capacity ?committed)"
    if "?full"
    using retreat_segment [OF c that] that by simp
  have pos: "0 < fst ?seg"
  proof (cases "?full")
    case True
    then show ?thesis using seg_full by simp
  next
    case False
    then show ?thesis by simp
  qed
  have mask: "event AND (ARM_USART_EVENT_RECEIVE_COMPLETE OR ARM_USART_EVENT_RX_FRAMING_ERROR
                      OR ARM_USART_EVENT_RX_TIMEOUT) \<noteq> 0"
    using assms(1) by (rule rx_bits)
  have commit: "fst (advanceBack (unat ?delta) (rx_buf d)) = unat ?delta
      \<longleftrightarrow> unat ?delta \<le> capacity (rx_buf d) - occupied (rx_buf d)"
    by (auto simp: advanceBack_simps)
  have abort: "do_signal_event vt event d = Inl Assert_count_adjust"
    if "capacity (rx_buf d) - occupied (rx_buf d) < unat ?delta"
    using that commit by (intro do_signal_event_overrun [OF mask]) simp
  have run: "do_signal_event vt event d =
      (if fst ?answer \<noteq> ARM_DRIVER_OK then Inl Assert_status
       else if event AND ARM_USART_EVENT_TX_COMPLETE \<noteq> 0
       then transmit_complete vt ?rearmed
       else Inr ?rearmed)"
    if "unat ?delta \<le> capacity (rx_buf d) - occupied (rx_buf d)"
  proof -
    from that commit have "fst (advanceBack (unat ?delta) (rx_buf d)) = unat ?delta"
      by simp
    from do_signal_event_receive [OF mask this] assms(1) pos show ?thesis
      by (simp add: Let_def)
  qed
  have no_nbyte: "do_signal_event vt event d \<noteq> Inl Assert_nbyte"
  proof (cases "unat ?delta \<le> capacity (rx_buf d) - occupied (rx_buf d)")
    case False
    then show ?thesis using abort by simp
  next
    case True
    have "transmit_complete vt x \<noteq> Inl Assert_nbyte" for x :: "'a Buffered_serial_device"
      by (auto simp: transmit_complete_eq Let_def split: option.splits)
    then show ?thesis
      using run [OF True] by simp
  qed
  have fin: "rx_buf d' = ?rb \<and> rx_count d' = 0
      \<and> (event AND ARM_USART_EVENT_TX_COMPLETE = 0 \<longrightarrow> d' = ?rearmed)
      \<and> (\<exists>rest. trace d' = trace d @ Receive (Ring (snd ?seg)) (fst ?seg) # rest)"
    if ret: "do_signal_event vt event d = Inr d'" for d'
  proof -
    have le: "unat ?delta \<le> capacity (rx_buf d) - occupied (rx_buf d)"
      using abort ret by fastforce
    from run [OF le] ret have tx:
      "(if event AND ARM_USART_EVENT_TX_COMPLETE \<noteq> 0
        then transmit_complete vt ?rearmed else Inr ?rearmed) = Inr d'"
      by (simp split: if_splits)
    note k = transmit_part_keeps [OF tx]
    from k(1,2,4) have "rx_buf d' = ?rb \<and> rx_count d' = 0
        \<and> (\<exists>rest. trace d' = trace d @ Receive (Ring (snd ?seg)) (fst ?seg) # rest)"
      by auto
    moreover have "d' = ?rearmed" if "event AND ARM_USART_EVENT_TX_COMPLETE = 0"
      using k(5) [OF that] .
    ultimately show ?thesis by blast
  qed
  have retreat: "occupied ?rb = occupied ?committed - 1 \<and> read_cursor ?rb = read_cursor (rx_buf d)"
    if "?full"
    using that by (simp add: retreatBack_simps advanceBack_simps)
  show ?thesis
    unfolding Let_def using no_nbyte pos seg_full retreat abort run fin by blast
qed

text \<open>
  The rx ring of two cells holds \<open>A\<close>, unread; the receiver has stored and counted \<open>B\<close>.
  On receive-complete the handler commits \<open>B\<close>, finds no space, un-commits \<open>B\<close>, issues
  the receive for the cell of \<open>B\<close> and completes, with \<open>rx_count_\<close> zero.
\<close>

theorem receive_complete_rearms_witness:
  "ARM_USART_EVENT_RECEIVE_COMPLETE AND ARM_USART_EVENT_RECEIVE_COMPLETE \<noteq> 0
   \<and> invariant (rx_buf overrun_device)
   \<and> unat (get_rx_count (test_driver 0 0) (driver overrun_device) - rx_count overrun_device)
        \<le> capacity (rx_buf overrun_device) - occupied (rx_buf overrun_device)
   \<and> fst (getBackContiguousBuffer (snd (advanceBack 1 (rx_buf overrun_device)))) = 0
   \<and> do_signal_event (test_driver 0 0) ARM_USART_EVENT_RECEIVE_COMPLETE overrun_device
        \<noteq> Inl Assert_nbyte
   \<and> do_signal_event (test_driver 0 0) ARM_USART_EVENT_RECEIVE_COMPLETE overrun_device
        = Inr overrun_after
   \<and> rx_count overrun_after = 0
   \<and> driver overrun_after
        = snd (receive (test_driver 0 0) (Ring 1) 1 (driver overrun_device))
   \<and> trace overrun_after = [Receive (Ring 1) 1]"
proof -
  have h1: "ARM_USART_EVENT_RECEIVE_COMPLETE AND ARM_USART_EVENT_RECEIVE_COMPLETE \<noteq> 0"
    by (simp add: handler_defs)
  have h2: "invariant (rx_buf overrun_device)"
    by (simp add: invariant_def capacity_def sample_defs)
  have h3: "unat (get_rx_count (test_driver 0 0) (driver overrun_device) - rx_count overrun_device)
        \<le> capacity (rx_buf overrun_device) - occupied (rx_buf overrun_device)"
    by (simp add: capacity_def sample_defs)
  note c4 = receive_complete_rearms [OF h1 h2, of "test_driver 0 0", unfolded Let_def]
  have full: "fst (getBackContiguousBuffer (snd (advanceBack 1 (rx_buf overrun_device)))) = 0"
    by (simp add: handler_defs sample_defs)
  have run: "do_signal_event (test_driver 0 0) ARM_USART_EVENT_RECEIVE_COMPLETE overrun_device
        = Inr overrun_after"
    using c4 [THEN conjunct2, THEN conjunct2, THEN conjunct2, THEN conjunct2, THEN conjunct1,
              rule_format, OF h3]
    by (simp add: handler_defs sample_defs)
  have no_nbyte: "do_signal_event (test_driver 0 0) ARM_USART_EVENT_RECEIVE_COMPLETE
        overrun_device \<noteq> Inl Assert_nbyte"
    using c4 [THEN conjunct1] .
  have after: "rx_count overrun_after = 0 \<and> trace overrun_after = [Receive (Ring 1) 1]
      \<and> driver overrun_after
           = snd (receive (test_driver 0 0) (Ring 1) 1 (driver overrun_device))"
    by (simp add: sample_defs)
  from h1 h2 h3 full no_nbyte run after show ?thesis
    by blast
qed

text \<open>
  The same run refutes C4 as stated, where \<open>retreatBack\<close> is said to overwrite the oldest
  unread byte: the cell handed to the receiver is cell 1, which holds \<open>B\<close>, the byte
  received last; the oldest unread byte \<open>A\<close> is in cell 0, at the read cursor, and is
  what a reader gets before and after.
\<close>

theorem retreatBack_spares_oldest_counterexample:
  "do_signal_event (test_driver 0 0) ARM_USART_EVENT_RECEIVE_COMPLETE overrun_device
     = Inr overrun_after
   \<and> fst (getBackContiguousBuffer (snd (advanceBack 1 (rx_buf overrun_device)))) = 0
   \<and> trace overrun_after = [Receive (Ring 1) 1]
   \<and> read_cursor (rx_buf overrun_after) = 0
   \<and> storage (rx_buf overrun_after) ! 0 = 0x41
   \<and> storage (rx_buf overrun_after) ! 1 = 0x42
   \<and> fst (snd (popFront 2 (rx_buf overrun_device))) = [0x41]
   \<and> fst (snd (popFront 2 (rx_buf overrun_after))) = [0x41]"
  by (simp add: handler_defs sample_defs popFront_def load_numeral)

text \<open>
  C5. On an event with the transmit-complete bit the handler runs, after the receive
  part if the event has receive bits too, the transmit part. With a tx buffer it commits
  the driver's tx count with \<open>advanceFront\<close>, which commits the count or, if that is less,
  what the buffer holds; another committed number than the count is an assertion
  failure. When the count is committed, the handler looks at the front-contiguous
  segment of the buffer: if it is not empty, it sends that segment on the driver, and
  completes, with \<open>tx_busy_\<close> as it was, unless the driver refuses the send, which is an
  assertion failure; if it is empty, it clears \<open>tx_busy_\<close> and completes. In both cases
  the state it completes in has the tx semaphore released if the buffer is then below
  its low watermark, and left alone if not. Without a tx buffer it releases the tx
  semaphore and does nothing else.
\<close>

theorem transmit_complete_event:
  assumes "event AND ARM_USART_EVENT_TX_COMPLETE \<noteq> 0"
  shows "do_signal_event vt event d =
           and_also
             (if event AND (ARM_USART_EVENT_RECEIVE_COMPLETE OR ARM_USART_EVENT_RX_FRAMING_ERROR
                            OR ARM_USART_EVENT_RX_TIMEOUT) \<noteq> 0
              then receive_events vt event d else Inr d)
             (transmit_complete vt)
         \<and> (event AND (ARM_USART_EVENT_RECEIVE_COMPLETE OR ARM_USART_EVENT_RX_FRAMING_ERROR
                        OR ARM_USART_EVENT_RX_TIMEOUT) = 0 \<longrightarrow>
               do_signal_event vt event d = transmit_complete vt d)
         \<and> (tx_buf d = None \<longrightarrow>
               transmit_complete vt d = Inr (d\<lparr>tx_sem := osSemaphoreRelease (tx_sem d)\<rparr>))
         \<and> (\<forall>tb. tx_buf d = Some tb \<longrightarrow>
               (let count = get_tx_count vt (driver d);
                    committed = advanceFront (unat count) tb;
                    seg = getFrontContiguousBuffer (snd committed);
                    answer = send vt (Ring (snd seg)) (fst seg) (driver d);
                    wake = (if isBelowLowWaterMark (snd committed)
                            then osSemaphoreRelease (tx_sem d) else tx_sem d)
                in fst committed = min (unat count) (occupied tb)
                   \<and> (fst committed \<noteq> unat count \<longrightarrow>
                         transmit_complete vt d = Inl Assert_count_adjust)
                   \<and> (fst committed = unat count \<longrightarrow>
                         occupied (snd committed) = occupied tb - unat count
                         \<and> transmit_complete vt d =
                             (if 0 < fst seg
                              then if fst answer \<noteq> ARM_DRIVER_OK then Inl Assert_status
                                   else Inr (d\<lparr>driver := snd answer, tx_sem := wake,
                                              tx_buf := Some (snd committed),
                                              trace := trace d @ [Send (Ring (snd seg)) (fst seg)]\<rparr>)
                              else Inr (d\<lparr>tx_sem := wake, tx_buf := Some (snd committed),
                                         tx_busy := False\<rparr>)))
                   \<and> (\<forall>d'. transmit_complete vt d = Inr d' \<longrightarrow>
                         fst committed = unat count
                         \<and> tx_buf d' = Some (snd committed)
                         \<and> (0 < fst seg \<longrightarrow>
                               trace d' = trace d @ [Send (Ring (snd seg)) (fst seg)]
                               \<and> driver d' = snd answer
                               \<and> tx_busy d' = tx_busy d)
                         \<and> (fst seg = 0 \<longrightarrow>
                               trace d' = trace d \<and> driver d' = driver d
                               \<and> tx_busy d' = False)
                         \<and> tx_sem d' = wake)))"
proof (intro conjI allI impI)
  show "do_signal_event vt event d =
           and_also
             (if event AND (ARM_USART_EVENT_RECEIVE_COMPLETE OR ARM_USART_EVENT_RX_FRAMING_ERROR
                            OR ARM_USART_EVENT_RX_TIMEOUT) \<noteq> 0
              then receive_events vt event d else Inr d)
             (transmit_complete vt)"
    using assms by (simp add: do_signal_event_def)
next
  assume "event AND (ARM_USART_EVENT_RECEIVE_COMPLETE OR ARM_USART_EVENT_RX_FRAMING_ERROR
                     OR ARM_USART_EVENT_RX_TIMEOUT) = 0"
  then show "do_signal_event vt event d = transmit_complete vt d"
    using assms by (simp add: do_signal_event_def and_also_def)
next
  assume "tx_buf d = None"
  then show "transmit_complete vt d = Inr (d\<lparr>tx_sem := osSemaphoreRelease (tx_sem d)\<rparr>)"
    by (simp add: transmit_complete_eq)
next
  fix tb
  assume tb: "tx_buf d = Some tb"
  let ?count = "get_tx_count vt (driver d)"
  let ?committed = "advanceFront (unat ?count) tb"
  let ?seg = "getFrontContiguousBuffer (snd ?committed)"
  let ?answer = "send vt (Ring (snd ?seg)) (fst ?seg) (driver d)"
  let ?wake = "if isBelowLowWaterMark (snd ?committed)
               then osSemaphoreRelease (tx_sem d) else tx_sem d"
  have amount: "fst ?committed = min (unat ?count) (occupied tb)"
    by (simp add: advanceFront_simps)
  have abort: "transmit_complete vt d = Inl Assert_count_adjust"
    if "fst ?committed \<noteq> unat ?count"
    using that tb by (simp add: transmit_complete_eq Let_def)
  have occ: "occupied (snd ?committed) = occupied tb - unat ?count"
    if "fst ?committed = unat ?count"
    using that by (simp add: advanceFront_simps)
  have run: "transmit_complete vt d =
      (if 0 < fst ?seg
       then if fst ?answer \<noteq> ARM_DRIVER_OK then Inl Assert_status
            else Inr (d\<lparr>driver := snd ?answer, tx_sem := ?wake,
                       tx_buf := Some (snd ?committed),
                       trace := trace d @ [Send (Ring (snd ?seg)) (fst ?seg)]\<rparr>)
       else Inr (d\<lparr>tx_sem := ?wake, tx_buf := Some (snd ?committed),
                  tx_busy := False\<rparr>))"
    if "fst ?committed = unat ?count"
    using that tb by (simp add: transmit_complete_eq Let_def)
  have fin: "fst ?committed = unat ?count
      \<and> tx_buf d' = Some (snd ?committed)
      \<and> (0 < fst ?seg \<longrightarrow>
            trace d' = trace d @ [Send (Ring (snd ?seg)) (fst ?seg)]
            \<and> driver d' = snd ?answer
            \<and> tx_busy d' = tx_busy d)
      \<and> (fst ?seg = 0 \<longrightarrow>
            trace d' = trace d \<and> driver d' = driver d \<and> tx_busy d' = False)
      \<and> tx_sem d' = ?wake"
    if ret: "transmit_complete vt d = Inr d'" for d'
  proof -
    have c: "fst ?committed = unat ?count"
      using abort ret by fastforce
    from run [OF c] ret show ?thesis
      using c by (auto split: if_splits)
  qed
  show "let count = get_tx_count vt (driver d);
            committed = advanceFront (unat count) tb;
            seg = getFrontContiguousBuffer (snd committed);
            answer = send vt (Ring (snd seg)) (fst seg) (driver d);
            wake = (if isBelowLowWaterMark (snd committed)
                    then osSemaphoreRelease (tx_sem d) else tx_sem d)
        in fst committed = min (unat count) (occupied tb)
           \<and> (fst committed \<noteq> unat count \<longrightarrow>
                 transmit_complete vt d = Inl Assert_count_adjust)
           \<and> (fst committed = unat count \<longrightarrow>
                 occupied (snd committed) = occupied tb - unat count
                 \<and> transmit_complete vt d =
                     (if 0 < fst seg
                      then if fst answer \<noteq> ARM_DRIVER_OK then Inl Assert_status
                           else Inr (d\<lparr>driver := snd answer, tx_sem := wake,
                                      tx_buf := Some (snd committed),
                                      trace := trace d @ [Send (Ring (snd seg)) (fst seg)]\<rparr>)
                      else Inr (d\<lparr>tx_sem := wake, tx_buf := Some (snd committed),
                                 tx_busy := False\<rparr>)))
           \<and> (\<forall>d'. transmit_complete vt d = Inr d' \<longrightarrow>
                 fst committed = unat count
                 \<and> tx_buf d' = Some (snd committed)
                 \<and> (0 < fst seg \<longrightarrow>
                       trace d' = trace d @ [Send (Ring (snd seg)) (fst seg)]
                       \<and> driver d' = snd answer
                       \<and> tx_busy d' = tx_busy d)
                 \<and> (fst seg = 0 \<longrightarrow>
                       trace d' = trace d \<and> driver d' = driver d
                       \<and> tx_busy d' = False)
                 \<and> tx_sem d' = wake)"
    unfolding Let_def using amount abort occ run fin by blast
qed

text \<open>
  The tx ring is full. When the driver has sent 30 bytes, the handler commits them, sends
  the 2 bytes left, leaves \<open>tx_busy_\<close> set and releases the tx semaphore, the buffer
  being below its low watermark 8. When the driver has sent all 32, the handler commits
  them, sends nothing, clears \<open>tx_busy_\<close> and releases the tx semaphore. When the driver
  reports 33, the commit assertion fails.
\<close>

theorem transmit_complete_event_witness:
  "ARM_USART_EVENT_TX_COMPLETE AND ARM_USART_EVENT_TX_COMPLETE \<noteq> 0
   \<and> tx_buf sender_device = Some full_ring
   \<and> fst (advanceFront 30 full_ring) = 30
   \<and> (\<exists>d'. do_signal_event (test_driver 0 0) ARM_USART_EVENT_TX_COMPLETE sender_device = Inr d'
          \<and> map_option occupied (tx_buf d') = Some 2
          \<and> trace d' = [Send (Ring 30) 2]
          \<and> driver d' = (0, 2)
          \<and> tx_busy d' = True
          \<and> tx_sem d' = Some 1)
   \<and> (\<exists>d'. do_signal_event (test_driver 0 0) ARM_USART_EVENT_TX_COMPLETE
              (sender_device\<lparr>driver := (0, 32)\<rparr>) = Inr d'
          \<and> map_option occupied (tx_buf d') = Some 0
          \<and> trace d' = []
          \<and> tx_busy d' = False
          \<and> tx_sem d' = Some 1)
   \<and> do_signal_event (test_driver 0 0) ARM_USART_EVENT_TX_COMPLETE
        (sender_device\<lparr>driver := (0, 33)\<rparr>) = Inl Assert_count_adjust"
proof -
  have h: "ARM_USART_EVENT_TX_COMPLETE AND ARM_USART_EVENT_TX_COMPLETE \<noteq> 0"
    by (simp add: handler_defs)
  have rx: "ARM_USART_EVENT_TX_COMPLETE AND (ARM_USART_EVENT_RECEIVE_COMPLETE
              OR ARM_USART_EVENT_RX_FRAMING_ERROR OR ARM_USART_EVENT_RX_TIMEOUT) = 0"
    by (simp add: handler_defs)
  note c5 = transmit_complete_event [OF h, of "test_driver 0 0"]
  have eq: "do_signal_event (test_driver 0 0) ARM_USART_EVENT_TX_COMPLETE d
      = transmit_complete (test_driver 0 0) d" for d
    using c5 [of d, THEN conjunct2, THEN conjunct1] rx by simp
  have tb: "tx_buf sender_device = Some full_ring"
    by (simp add: sender_device_def sample_defs)
  have tb2: "tx_buf (sender_device\<lparr>driver := x\<rparr>) = Some full_ring" for x
    by (simp add: sender_device_def sample_defs)
  have thirty: "fst (advanceFront 30 full_ring) = 30"
    by (simp add: advanceFront_def full_ring_def)
  have a: "\<exists>d'. transmit_complete (test_driver 0 0) sender_device = Inr d'
          \<and> map_option occupied (tx_buf d') = Some 2
          \<and> trace d' = [Send (Ring 30) 2]
          \<and> driver d' = (0, 2)
          \<and> tx_busy d' = True
          \<and> tx_sem d' = Some 1"
    using c5 [of sender_device, THEN conjunct2, THEN conjunct2, THEN conjunct2, rule_format,
              OF tb, unfolded Let_def, THEN conjunct2, THEN conjunct2, THEN conjunct1]
    by (simp add: handler_defs sender_device_def full_ring_def sample_defs)
  have b: "\<exists>d'. transmit_complete (test_driver 0 0) (sender_device\<lparr>driver := (0, 32)\<rparr>) = Inr d'
          \<and> map_option occupied (tx_buf d') = Some 0
          \<and> trace d' = []
          \<and> tx_busy d' = False
          \<and> tx_sem d' = Some 1"
    using c5 [of "sender_device\<lparr>driver := (0, 32)\<rparr>", THEN conjunct2, THEN conjunct2,
              THEN conjunct2, rule_format, OF tb2, unfolded Let_def, THEN conjunct2,
              THEN conjunct2, THEN conjunct1]
    by (simp add: handler_defs sender_device_def full_ring_def sample_defs)
  have c: "transmit_complete (test_driver 0 0) (sender_device\<lparr>driver := (0, 33)\<rparr>)
             = Inl Assert_count_adjust"
    using c5 [of "sender_device\<lparr>driver := (0, 33)\<rparr>", THEN conjunct2, THEN conjunct2,
              THEN conjunct2, rule_format, OF tb2, unfolded Let_def, THEN conjunct2,
              THEN conjunct1]
    by (simp add: handler_defs sender_device_def full_ring_def sample_defs)
  from h tb thirty a b c show ?thesis
    unfolding eq by blast
qed

section \<open>The claims about open\<close>

text \<open>
  C7. On a device that is already open, \<open>do_vopen\<close> returns -1 with \<open>errno\<close> \<open>EEXIST\<close>
  and changes nothing: the device, with its semaphores, its two buffers, its driver,
  \<open>rx_count_\<close> and \<open>tx_busy_\<close>, is the one it was, and no call is made on the driver.
\<close>

theorem do_vopen_already_open:
  "rx_sem d \<noteq> None \<Longrightarrow> do_vopen vt os d = (Inl EEXIST, d)"
  by (simp add: do_vopen_def)

theorem do_vopen_already_open_witness:
  "rx_sem reader_device \<noteq> None
   \<and> do_vopen (test_driver 0 0) (True, True) reader_device = (Inl EEXIST, reader_device)
   \<and> (\<exists>d'. do_read (test_driver 0 0) []
              (snd (do_vopen (test_driver 0 0) (True, True) reader_device)) 3
            = Returns (2, [0x41, 0x42]) d' [])"
proof -
  have h: "rx_sem reader_device \<noteq> None"
    by (simp add: test_defs)
  have e: "do_vopen (test_driver 0 0) (True, True) reader_device = (Inl EEXIST, reader_device)"
    using do_vopen_already_open [OF h] .
  have "\<exists>d'. do_read (test_driver 0 0) [] reader_device 3 = Returns (2, [0x41, 0x42]) d' []"
    by (simp add: do_read_unfold popFront_def Let_def test_defs load_numeral)
  with h e show ?thesis by simp
qed

text \<open>
  C6. What \<open>do_vopen\<close> does when a step of the open sequence fails: it calls
  \<open>power (ARM_POWER_OFF)\<close> and \<open>uninitialize\<close> and returns -1 with \<open>errno\<close> \<open>ENOSR\<close>, but
  it leaves \<open>rx_sem_\<close> and \<open>tx_sem_\<close> as \<open>osSemaphoreCreate\<close> returned them. So after a
  failed open the device reports itself open exactly when the first semaphore had been
  allocated, which is the case for every failure of a driver call. \<open>do_close\<close>, for
  comparison, resets both members.
\<close>

theorem do_vopen_failure_leaves_device_open:
  "do_vopen (test_driver ARM_DRIVER_ERROR ARM_DRIVER_OK) (True, True) closed_device
     = (Inl ENOSR,
        closed_device\<lparr>rx_sem := Some 0, tx_sem := Some 0,
          trace := [Initialize, Power ARM_POWER_OFF, Uninitialize]\<rparr>)
   \<and> doIsOpened closed_device = False
   \<and> doIsOpened (snd (do_vopen (test_driver ARM_DRIVER_ERROR ARM_DRIVER_OK) (True, True)
                        closed_device)) = True
   \<and> fst (do_vopen (test_driver ARM_DRIVER_OK ARM_DRIVER_OK) (True, True)
            (snd (do_vopen (test_driver ARM_DRIVER_ERROR ARM_DRIVER_OK) (True, True)
                    closed_device))) = Inl EEXIST"
  by (simp add: do_vopen_def open_sequence_def doIsOpened_def osSemaphoreCreate_def clear_def
        driver_call_def Let_def handler_defs sample_defs)

section \<open>The claims about writing\<close>

text \<open>
  C8, as amended. With a tx buffer, \<open>do_write\<close> starts with one admission and then runs
  its loop. The admission pushes only if the buffer is below its high watermark, and then
  it pushes all the bytes that fit: the count is the smaller of n and the free space, so
  it is bounded by the free space, not by the high watermark. It comes before any call of
  \<open>send\<close> by the writer.
\<close>

theorem first_admission_fills_free_space:
  assumes "tx_buf d = Some tb"
  shows "do_write vt env d buf =
           do_write_loop vt env (snd (first_admission buf tb d)) buf
             (fst (first_admission buf tb d))
         \<and> fst (first_admission buf tb d) =
             (if isBelowHighWaterMark tb then min (length buf) (capacity tb - occupied tb) else 0)
         \<and> fst (first_admission buf tb d) \<le> capacity tb - occupied tb
         \<and> trace (snd (first_admission buf tb d)) =
             (if isBelowHighWaterMark tb
              then trace d @ [PushBack (take (min (length buf) (capacity tb - occupied tb)) buf)]
              else trace d)
         \<and> map_option occupied (tx_buf (snd (first_admission buf tb d))) =
             Some (occupied tb + fst (first_admission buf tb d))"
  using assms
  by (simp add: do_write_def first_admission_def split_def pushBack_simps)

text \<open>
  A write of 100 bytes to the open device, whose tx buffer of capacity 32 and high
  watermark 24 is empty: 32 bytes are admitted, then the first send is issued.
\<close>

theorem first_admission_fills_free_space_witness:
  "tx_buf open_device = Some (ring 32 24 8)
   \<and> length hundred = 100
   \<and> fst (first_admission hundred (ring 32 24 8) open_device) = 32
   \<and> map_option trace (final_state (do_write (test_driver 0 0) [] open_device hundred))
       = Some [PushBack (take 32 hundred), Send (Ring 0) 32]"
proof -
  have h: "tx_buf open_device = Some (ring 32 24 8)"
    by (simp add: sample_defs)
  note c8 = first_admission_fills_free_space [OF h, of "test_driver 0 0" "[]" hundred]
  have n: "fst (first_admission hundred (ring 32 24 8) open_device) = 32"
    using c8 [THEN conjunct2, THEN conjunct1]
    by (simp add: isBelowHighWaterMark_def capacity_def hundred_def sample_defs)
  have "map_option trace (final_state (do_write (test_driver 0 0) [] open_device hundred))
       = Some [PushBack (take 32 hundred), Send (Ring 0) 32]"
    unfolding c8 [THEN conjunct1]
    by (simp add: do_write_loop_unfold write_defs handler_defs sample_defs hundred_def
          final_state_def)
  with h n show ?thesis by (simp add: hundred_def)
qed

theorem first_admission_exceeds_high_watermark_counterexample:
  "capacity (ring 32 24 8) = 32
   \<and> high_watermark (ring 32 24 8) = 24
   \<and> occupied (ring 32 24 8) = 0
   \<and> tx_buf open_device = Some (ring 32 24 8)
   \<and> length hundred = 100
   \<and> fst (first_admission hundred (ring 32 24 8) open_device) = 32
   \<and> \<not> fst (first_admission hundred (ring 32 24 8) open_device) \<le> 24
   \<and> map_option trace (final_state (do_write (test_driver 0 0) [] open_device hundred))
       = Some [PushBack (take 32 hundred), Send (Ring 0) 32]
   \<and> length (take 32 hundred) = 32"
  by (simp add: do_write_loop_unfold write_defs handler_defs sample_defs hundred_def
        final_state_def)

text \<open>
  C2. The claim fails on the code: a buffered write that meets no refused send can stay
  blocked for ever with bytes still to admit. \<open>do_write\<close> sets \<open>tx_busy_\<close> after
  \<open>send\<close> has returned, outside any critical section (lines 352 to 357). When the
  transmit-complete interrupt of that send is served in between, the handler finds the
  buffer empty, clears \<open>tx_busy_\<close> and releases the tx semaphore, and the writer then
  sets \<open>tx_busy_\<close> with no transmission in flight. From then on the writer never sends
  again, and nothing clears the flag. In the run below, the write of 100 bytes to the open
  device (tx capacity 32) on a driver that accepts every send admits 32 bytes, sends
  them, takes the token and admits 32 more, and then waits on the tx semaphore with
  \<open>tx_busy_\<close> set, no token, the driver having completed all it was given and 32 bytes
  in the buffer that are never sent: 64 of the 100 bytes are admitted and the call does
  not return. It does not return whatever interrupts follow, as long as none reports a
  transmission complete, which the driver has no reason to do. With the same interrupt
  served one place later, during the wait, the same write returns 100.
\<close>

theorem do_write_blocks_after_race:
  "(\<forall>p n s. fst (send (test_driver 0 0) p n s) = ARM_DRIVER_OK)
   \<and> length hundred = 100
   \<and> (\<exists>d'. do_write (test_driver 0 0)
              [[], [], [], [tx_done], [], [], [received 1 ARM_USART_EVENT_RX_TIMEOUT]]
              open_device hundred = Blocked d'
          \<and> tx_busy d' = True
          \<and> tx_sem d' = Some 0
          \<and> map_option occupied (tx_buf d') = Some 32
          \<and> get_tx_count (test_driver 0 0) (driver d') = 32
          \<and> trace d' = [PushBack (take 32 hundred), Send (Ring 0) 32,
                         PushBack (take 32 (drop 32 hundred))])
   \<and> (\<forall>env. rx_only env \<longrightarrow>
         (\<forall>r d' env'. do_write (test_driver 0 0) ([[], [], [], [tx_done], []] @ env)
                         open_device hundred \<noteq> Returns r d' env'))
   \<and> (\<exists>d'. do_write (test_driver 0 0)
              [[], [], [], [], [tx_done], [], [], [], [], [tx_done], [], [], [], [], [tx_done],
               [], [], [], []]
              open_device hundred = Returns (Inr 100) d' []
          \<and> admitted (trace d') = hundred)"
proof -
  let ?vt = "test_driver 0 0"
  have runs: "(\<forall>p n s. fst (send ?vt p n s) = ARM_DRIVER_OK)
   \<and> length hundred = 100
   \<and> (\<exists>d'. do_write ?vt
              [[], [], [], [tx_done], [], [], [received 1 ARM_USART_EVENT_RX_TIMEOUT]]
              open_device hundred = Blocked d'
          \<and> tx_busy d' = True
          \<and> tx_sem d' = Some 0
          \<and> map_option occupied (tx_buf d') = Some 32
          \<and> get_tx_count ?vt (driver d') = 32
          \<and> trace d' = [PushBack (take 32 hundred), Send (Ring 0) 32,
                         PushBack (take 32 (drop 32 hundred))])
   \<and> (\<exists>d'. do_write ?vt
              [[], [], [], [], [tx_done], [], [], [], [], [tx_done], [], [], [], [], [tx_done],
               [], [], [], []]
              open_device hundred = Returns (Inr 100) d' []
          \<and> admitted (trace d') = hundred)"
    by (simp add: do_write_loop_unfold write_defs handler_defs sample_defs hundred_def
          tx_done_def to_ssize_t_def replicate_add [symmetric])
  have stuck: "do_write ?vt ([[], [], [], [tx_done], []] @ env) open_device hundred
                 \<noteq> Returns r d' env'"
    if quiet: "rx_only env" for env r d' env'
  proof -
    have "\<exists>d3. do_write ?vt ([[], [], [], [tx_done], []] @ env) open_device hundred
                  = do_write_loop ?vt env d3 hundred 64
              \<and> tx_busy d3 \<and> tx_sem d3 = Some 0"
      apply (simp add: do_write_def first_admission_def admit_def isBelowHighWaterMark_def
            pushBack_def capacity_def split_def Let_def hundred_def sample_defs)
      apply (subst do_write_loop_unfold)
      apply (simp add: start_send_def issue_send_def preempt_def driver_call_def acquire_def
            admit_def pushBack_def split_def tx_done_def handler_defs)
      apply (rule exI)
      apply (intro conjI)
        apply (rule refl)
       apply simp_all
      done
    then obtain d3 where
      eq: "do_write ?vt ([[], [], [], [tx_done], []] @ env) open_device hundred
             = do_write_loop ?vt env d3 hundred 64"
      and d3: "tx_busy d3" "tx_sem d3 = Some 0"
      by blast
    have "64 \<noteq> length hundred"
      by (simp add: hundred_def)
    from do_write_loop_stuck [OF quiet d3 this] eq show ?thesis
      by simp
  qed
  from runs stuck show ?thesis by blast
qed

text \<open>
  After the race, three more places with receive interrupts: the write does not return.
\<close>

theorem do_write_blocks_after_race_witness:
  "rx_only [[], [received 1 ARM_USART_EVENT_RX_TIMEOUT],
            [received 1 ARM_USART_EVENT_RX_TIMEOUT, received 1 ARM_USART_EVENT_RX_FRAMING_ERROR]]
   \<and> (\<forall>r d' env'.
         do_write (test_driver 0 0)
           ([[], [], [], [tx_done], []]
            @ [[], [received 1 ARM_USART_EVENT_RX_TIMEOUT],
               [received 1 ARM_USART_EVENT_RX_TIMEOUT,
                received 1 ARM_USART_EVENT_RX_FRAMING_ERROR]])
           open_device hundred \<noteq> Returns r d' env')"
proof -
  have quiet: "rx_only [[], [received 1 ARM_USART_EVENT_RX_TIMEOUT],
      [received 1 ARM_USART_EVENT_RX_TIMEOUT, received 1 ARM_USART_EVENT_RX_FRAMING_ERROR]]"
    by (simp add: rx_only_def received_def handler_defs)
  from do_write_blocks_after_race [THEN conjunct2, THEN conjunct2, THEN conjunct2,
         THEN conjunct1, rule_format, OF quiet] quiet
  show ?thesis by blast
qed

text \<open>
  C9. In a turn of the loop of the buffered write, whatever interrupts are served in the
  three places where the writer can be preempted before the \<open>send\<close>: when \<open>tx_busy_\<close> is
  then clear, the tx buffer has a front segment and the driver refuses the \<open>send\<close> of it,
  the call returns -1 with \<open>errno\<close> \<open>EIO\<close> from there. It does not wait: the schedule left
  is the one at the \<open>send\<close>. And the device is left as it was at the \<open>send\<close> but for the
  driver and the record of the call; in particular the tx buffer, with the bytes
  admitted so far, is untouched. This holds at the first turn, which \<open>do_write\<close> enters
  after its first admission, and at every later turn, which the loop enters after a
  wait and an admission. Conversely, an error that the loop returns is \<open>EIO\<close>, the state
  returned is the state at a \<open>send\<close> that the driver refused, and the bytes admitted
  during the call are still a prefix of the caller's.
\<close>

theorem send_failure_returns_EIO:
  "(\<forall>d1 env1 d2 env2 tb d3 env3.
      preempt vt env d = Returns () d1 env1 \<and> \<not> tx_busy d1
      \<and> preempt vt env1 d1 = Returns () d2 env2 \<and> tx_buf d2 = Some tb
      \<and> 0 < fst (getFrontContiguousBuffer tb)
      \<and> preempt vt env2 d2 = Returns () d3 env3
      \<and> fst (send vt (Ring (snd (getFrontContiguousBuffer tb)))
                (fst (getFrontContiguousBuffer tb)) (driver d3)) \<noteq> ARM_DRIVER_OK
      \<longrightarrow>
      (let failed = d3\<lparr>driver := snd (send vt (Ring (snd (getFrontContiguousBuffer tb)))
                                        (fst (getFrontContiguousBuffer tb)) (driver d3)),
                        trace := trace d3 @ [Send (Ring (snd (getFrontContiguousBuffer tb)))
                                               (fst (getFrontContiguousBuffer tb))]\<rparr>
       in do_write_loop vt env d buf count = Returns (Inl EIO) failed env3
          \<and> tx_buf failed = tx_buf d3
          \<and> (\<forall>d0 tb0. tx_buf d0 = Some tb0 \<and> first_admission buf tb0 d0 = (count, d) \<longrightarrow>
                do_write vt env d0 buf = Returns (Inl EIO) failed env3)))
   \<and> (\<forall>d1 env1 d2 env2 tb.
         start_send vt env d = Returns (Inr ()) d1 env1 \<and> count < length buf
         \<and> osSemaphoreWait vt Tx_sem env1 d1 = Returns () d2 env2 \<and> tx_buf d2 = Some tb
         \<longrightarrow>
         do_write_loop vt env d buf count =
           do_write_loop vt env2 (snd (admit (drop count buf) tb d2)) buf
             (count + fst (admit (drop count buf) tb d2)))
   \<and> (\<forall>d0 tb0. tx_buf d0 = Some tb0 \<longrightarrow>
         do_write vt env d0 buf =
           do_write_loop vt env (snd (first_admission buf tb0 d0)) buf
             (fst (first_admission buf tb0 d0)))
   \<and> (\<forall>e d' env'.
         count \<le> length buf \<and> do_write_loop vt env d buf count = Returns (Inl e) d' env'
         \<longrightarrow>
         e = EIO
         \<and> (\<exists>k. count \<le> k \<and> k \<le> length buf
                \<and> admitted (trace d') = admitted (trace d) @ take (k - count) (drop count buf))
         \<and> (\<exists>d3 pbuf nb.
                fst (send vt (Ring pbuf) nb (driver d3)) \<noteq> ARM_DRIVER_OK
                \<and> d' = d3\<lparr>driver := snd (send vt (Ring pbuf) nb (driver d3)),
                          trace := trace d3 @ [Send (Ring pbuf) nb]\<rparr>))"
proof (intro conjI allI impI)
  fix d1 env1 d2 env2 tb and d3 :: "'a Buffered_serial_device" and env3
  let ?nb = "fst (getFrontContiguousBuffer tb)"
  let ?pbuf = "snd (getFrontContiguousBuffer tb)"
  let ?failed = "d3\<lparr>driver := snd (send vt (Ring ?pbuf) ?nb (driver d3)),
                    trace := trace d3 @ [Send (Ring ?pbuf) ?nb]\<rparr>"
  assume h: "preempt vt env d = Returns () d1 env1 \<and> \<not> tx_busy d1
      \<and> preempt vt env1 d1 = Returns () d2 env2 \<and> tx_buf d2 = Some tb
      \<and> 0 < ?nb
      \<and> preempt vt env2 d2 = Returns () d3 env3
      \<and> fst (send vt (Ring ?pbuf) ?nb (driver d3)) \<noteq> ARM_DRIVER_OK"
  then have s: "start_send vt env d = Returns (Inl EIO) ?failed env3"
    using start_send_refused [of vt env d d1 env1 d2 env2 tb d3 env3] by blast
  then have loop: "do_write_loop vt env d buf count = Returns (Inl EIO) ?failed env3"
    by (rule do_write_loop_refused)
  have "\<forall>d0 tb0. tx_buf d0 = Some tb0 \<and> first_admission buf tb0 d0 = (count, d) \<longrightarrow>
          do_write vt env d0 buf = Returns (Inl EIO) ?failed env3"
    using loop by (simp add: do_write_def)
  with loop show "let failed = ?failed
       in do_write_loop vt env d buf count = Returns (Inl EIO) failed env3
          \<and> tx_buf failed = tx_buf d3
          \<and> (\<forall>d0 tb0. tx_buf d0 = Some tb0 \<and> first_admission buf tb0 d0 = (count, d) \<longrightarrow>
                do_write vt env d0 buf = Returns (Inl EIO) failed env3)"
    unfolding Let_def by simp
next
  fix d1 env1 d2 env2 tb
  assume "start_send vt env d = Returns (Inr ()) d1 env1 \<and> count < length buf
         \<and> osSemaphoreWait vt Tx_sem env1 d1 = Returns () d2 env2 \<and> tx_buf d2 = Some tb"
  then show "do_write_loop vt env d buf count =
           do_write_loop vt env2 (snd (admit (drop count buf) tb d2)) buf
             (count + fst (admit (drop count buf) tb d2))"
    using do_write_loop_turn [of vt env d "()" d1 env1 count buf d2 env2 tb] by blast
next
  fix d0 :: "'a Buffered_serial_device" and tb0
  assume "tx_buf d0 = Some tb0"
  then show "do_write vt env d0 buf =
           do_write_loop vt env (snd (first_admission buf tb0 d0)) buf
             (fst (first_admission buf tb0 d0))"
    by (simp add: do_write_def split_def Let_def)
next
  fix e d' env'
  assume h: "count \<le> length buf \<and> do_write_loop vt env d buf count = Returns (Inl e) d' env'"
  from do_write_loop_Returns [of vt env d buf count "Inl e" d' env'] h
  obtain k where k: "count \<le> k" "k \<le> length buf"
      "admitted (trace d') = admitted (trace d) @ take (k - count) (drop count buf)"
    and r: "e = EIO"
      "\<exists>d3 pbuf nb.
          fst (send vt (Ring pbuf) nb (driver d3)) \<noteq> ARM_DRIVER_OK
          \<and> d' = d3\<lparr>driver := snd (send vt (Ring pbuf) nb (driver d3)),
                    trace := trace d3 @ [Send (Ring pbuf) nb]\<rparr>"
    by auto
  show "e = EIO" by (rule r)
  show "\<exists>k. count \<le> k \<and> k \<le> length buf
          \<and> admitted (trace d') = admitted (trace d) @ take (k - count) (drop count buf)"
    using k by blast
  show "\<exists>d3 pbuf nb.
          fst (send vt (Ring pbuf) nb (driver d3)) \<noteq> ARM_DRIVER_OK
          \<and> d' = d3\<lparr>driver := snd (send vt (Ring pbuf) nb (driver d3)),
                    trace := trace d3 @ [Send (Ring pbuf) nb]\<rparr>"
    by (rule r)
qed

text \<open>
  The write of 100 bytes to the open device, on a driver that refuses every send, with an
  rx-timeout interrupt served before the writer reads \<open>tx_busy_\<close>: 32 bytes are admitted,
  the interrupt commits a received byte, the send fails, and the call returns \<open>EIO\<close> with
  the 32 bytes in the tx buffer. And the same write on a driver that refuses the second
  send: the call returns \<open>EIO\<close> at the second turn of the loop, after a transmit-complete
  interrupt and a wait, with 64 bytes admitted and 32 of them in the tx buffer.
\<close>

theorem send_failure_returns_EIO_witness:
  "tx_buf open_device = Some (ring 32 24 8)
   \<and> first_admission hundred (ring 32 24 8) open_device
         = (32, snd (first_admission hundred (ring 32 24 8) open_device))
   \<and> (\<exists>d1. preempt (test_driver 0 ARM_DRIVER_ERROR) [[received 1 ARM_USART_EVENT_RX_TIMEOUT]]
               (snd (first_admission hundred (ring 32 24 8) open_device)) = Returns () d1 []
          \<and> \<not> tx_busy d1
          \<and> preempt (test_driver 0 ARM_DRIVER_ERROR) [] d1 = Returns () d1 []
          \<and> tx_buf d1 = Some (snd (pushBack hundred (ring 32 24 8)))
          \<and> getFrontContiguousBuffer (snd (pushBack hundred (ring 32 24 8))) = (32, 0)
          \<and> fst (send (test_driver 0 ARM_DRIVER_ERROR) (Ring 0) 32 (driver d1)) \<noteq> ARM_DRIVER_OK
          \<and> do_write (test_driver 0 ARM_DRIVER_ERROR) [[received 1 ARM_USART_EVENT_RX_TIMEOUT]]
                open_device hundred
              = Returns (Inl EIO)
                  (d1\<lparr>driver := snd (send (test_driver 0 ARM_DRIVER_ERROR) (Ring 0) 32 (driver d1)),
                      trace := trace d1 @ [Send (Ring 0) 32]\<rparr>) []
          \<and> occupied (rx_buf d1) = 1
          \<and> rx_sem d1 = Some 1
          \<and> tx_sem d1 = Some 0
          \<and> trace d1 = [PushBack (take 32 hundred)])
   \<and> (\<exists>d'. do_write once_driver [[], [], [], [], [tx_done], [received 1 ARM_USART_EVENT_RX_TIMEOUT]]
              open_device hundred = Returns (Inl EIO) d' []
          \<and> map_option occupied (tx_buf d') = Some 32
          \<and> admitted (trace d') = take 64 hundred
          \<and> trace d' = [PushBack (take 32 hundred), Send (Ring 0) 32,
                         PushBack (take 32 (drop 32 hundred)), Send (Ring 0) 32])"
proof -
  let ?vt = "test_driver 0 ARM_DRIVER_ERROR"
  let ?env = "[[received 1 ARM_USART_EVENT_RX_TIMEOUT]]"
  let ?d = "snd (first_admission hundred (ring 32 24 8) open_device)"
  let ?tb = "snd (pushBack hundred (ring 32 24 8))"
  have h0: "tx_buf open_device = Some (ring 32 24 8)"
    by (simp add: sample_defs)
  have adm: "first_admission hundred (ring 32 24 8) open_device = (32, ?d)"
    by (simp add: first_admission_def admit_def isBelowHighWaterMark_def pushBack_def
          capacity_def split_def Let_def hundred_def sample_defs)
  obtain d1 where p1: "preempt ?vt ?env ?d = Returns () d1 []"
    and busy: "\<not> tx_busy d1" and tb: "tx_buf d1 = Some ?tb"
    and rest: "occupied (rx_buf d1) = 1" "rx_sem d1 = Some 1" "tx_sem d1 = Some 0"
      "trace d1 = [PushBack (take 32 hundred)]"
    by (simp add: preempt_def first_admission_def admit_def isBelowHighWaterMark_def
          pushBack_def split_def hundred_def handler_defs sample_defs)
  have p2: "preempt ?vt [] d1 = Returns () d1 []"
    by (simp add: preempt_def)
  have seg: "getFrontContiguousBuffer ?tb = (32, 0)"
    by (simp add: getFrontContiguousBuffer_def pushBack_def capacity_def Let_def hundred_def
          sample_defs)
  have refuse: "fst (send ?vt (Ring 0) 32 (driver d1)) \<noteq> ARM_DRIVER_OK"
    by (simp add: test_driver_def ARM_DRIVER_ERROR_def ARM_DRIVER_OK_def)
  have run: "do_write ?vt ?env open_device hundred
      = Returns (Inl EIO)
          (d1\<lparr>driver := snd (send ?vt (Ring 0) 32 (driver d1)),
              trace := trace d1 @ [Send (Ring 0) 32]\<rparr>) []"
    using send_failure_returns_EIO [of ?vt ?env ?d hundred 32, THEN conjunct1, rule_format,
            of d1 "[]" d1 "[]" ?tb d1 "[]", unfolded Let_def, THEN conjunct2, THEN conjunct2,
            rule_format, of open_device "ring 32 24 8"]
      p1 busy p2 tb seg refuse h0 adm
    by simp
  have later: "\<exists>d'. do_write once_driver
              [[], [], [], [], [tx_done], [received 1 ARM_USART_EVENT_RX_TIMEOUT]]
              open_device hundred = Returns (Inl EIO) d' []
          \<and> map_option occupied (tx_buf d') = Some 32
          \<and> admitted (trace d') = take 64 hundred
          \<and> trace d' = [PushBack (take 32 hundred), Send (Ring 0) 32,
                         PushBack (take 32 (drop 32 hundred)), Send (Ring 0) 32]"
    by (simp add: do_write_loop_unfold write_defs handler_defs sample_defs hundred_def
          tx_done_def once_driver_def replicate_add [symmetric])
  from h0 adm p1 busy p2 tb seg refuse run rest later show ?thesis
    by blast
qed

end
